theory Spec2Isabelle
  imports Complex_Main
begin

section \<open>Strings\<close>

text \<open>
  Python strings are modelled as \<^typ>\<open>string\<close>; the text handled by the scraper is
  read as ASCII, so one \<^typ>\<open>char\<close> is one character. \<open>str.lower\<close>, \<open>str.strip\<close>
  and the substring test \<open>a in b\<close> are written out.
\<close>

definition char_code :: "char \<Rightarrow> nat" where
  "char_code c = of_char c"

definition lower_char :: "char \<Rightarrow> char" where
  "lower_char c = (if 65 \<le> char_code c \<and> char_code c \<le> 90 then char_of (char_code c + 32) else c)"

definition py_lower :: "string \<Rightarrow> string" where
  "py_lower s = map lower_char s"

definition is_space :: "char \<Rightarrow> bool" where
  "is_space c = ((9 \<le> char_code c \<and> char_code c \<le> 13) \<or> (28 \<le> char_code c \<and> char_code c \<le> 32))"

definition py_strip :: "string \<Rightarrow> string" where
  "py_strip s = rev (dropWhile is_space (rev (dropWhile is_space s)))"

definition startswith :: "string \<Rightarrow> string \<Rightarrow> bool" where
  "startswith s p = (take (length p) s = p)"

fun py_in :: "string \<Rightarrow> string \<Rightarrow> bool" where
  "py_in p [] = (p = [])"
| "py_in p (c # s) = (startswith (c # s) p \<or> py_in p s)"

section \<open>Regular expressions\<close>

text \<open>
  The fragment of Python's \<open>re\<close> that the program uses: literals, a character class
  given by its ranges, \<open>.\<close>, alternation, sequence and bounded greedy repetition.
  \<open>rx_match ic r s\<close> lists, in the order in which a backtracking matcher tries them,
  the remainders of \<open>s\<close> after each way of matching \<open>r\<close> at its start; \<open>ic\<close> is the
  flag \<open>re.IGNORECASE\<close>.
\<close>

datatype rx =
    Lit string
  | Cls "(char \<times> char) list"
  | AnyChar
  | Alt rx rx
  | Seq rx rx
  | Rep nat nat rx

definition in_range :: "char \<Rightarrow> char \<times> char \<Rightarrow> bool" where
  "in_range c r = (char_code (fst r) \<le> char_code c \<and> char_code c \<le> char_code (snd r))"

definition upper_char :: "char \<Rightarrow> char" where
  "upper_char c = (if 97 \<le> char_code c \<and> char_code c \<le> 122 then char_of (char_code c - 32) else c)"

definition in_class :: "bool \<Rightarrow> (char \<times> char) list \<Rightarrow> char \<Rightarrow> bool" where
  "in_class ic rs c =
     (if ic then list_ex (in_range (lower_char c)) rs \<or> list_ex (in_range (upper_char c)) rs
      else list_ex (in_range c) rs)"

definition lit_match :: "bool \<Rightarrow> string \<Rightarrow> string \<Rightarrow> string list" where
  "lit_match ic l s =
     (if (if ic then py_lower (take (length l) s) = py_lower l else take (length l) s = l)
      then [drop (length l) s] else [])"

fun rep_match :: "(string \<Rightarrow> string list) \<Rightarrow> nat \<Rightarrow> nat \<Rightarrow> string \<Rightarrow> string list" where
  "rep_match m lo 0 s = (if lo = 0 then [s] else [])"
| "rep_match m lo (Suc hi) s =
     concat (map (rep_match m (lo - 1) hi) (m s)) @ (if lo = 0 then [s] else [])"

definition cls_match :: "bool \<Rightarrow> (char \<times> char) list \<Rightarrow> string \<Rightarrow> string list" where
  "cls_match ic rs s = (case s of [] \<Rightarrow> [] | c # t \<Rightarrow> if in_class ic rs c then [t] else [])"

definition any_match :: "string \<Rightarrow> string list" where
  "any_match s = (case s of [] \<Rightarrow> [] | c # t \<Rightarrow> if c = CHR 0x0A then [] else [t])"

primrec rx_match :: "bool \<Rightarrow> rx \<Rightarrow> string \<Rightarrow> string list" where
  "rx_match ic (Lit l) = lit_match ic l"
| "rx_match ic (Cls rs) = cls_match ic rs"
| "rx_match ic AnyChar = any_match"
| "rx_match ic (Alt a b) = (\<lambda>s. rx_match ic a s @ rx_match ic b s)"
| "rx_match ic (Seq a b) = (\<lambda>s. concat (map (rx_match ic b) (rx_match ic a s)))"
| "rx_match ic (Rep lo hi r) = rep_match (rx_match ic r) lo hi"

text \<open>
  \<open>re.match(r'^...$', s)\<close>: the pattern is tried at the start of \<open>s\<close>, and the final
  \<open>$\<close> accepts the end of the string or the position before a newline that ends it.
\<close>

definition at_dollar :: "string \<Rightarrow> bool" where
  "at_dollar rest = (rest = [] \<or> rest = [CHR 0x0A])"

definition re_match_anchored :: "rx \<Rightarrow> string \<Rightarrow> bool" where
  "re_match_anchored r s = list_ex at_dollar (rx_match False r s)"

text \<open>\<open>re.search\<close> with \<open>re.IGNORECASE\<close>: a match may start at any position.\<close>

fun suffixes_of :: "string \<Rightarrow> string list" where
  "suffixes_of [] = [[]]"
| "suffixes_of (c # s) = (c # s) # suffixes_of s"

definition re_search_ic :: "rx \<Rightarrow> string \<Rightarrow> bool" where
  "re_search_ic r s = list_ex (\<lambda>t. rx_match True r t \<noteq> []) (suffixes_of s)"

text \<open>The pattern \<open>^(bc1|[13])[a-zA-HJ-NP-Z0-9]{25,90}$\<close> of \<open>_parse_page\<close>.\<close>

definition address_alphabet :: "(char \<times> char) list" where
  "address_alphabet =
     [(CHR ''a'', CHR ''z''), (CHR ''A'', CHR ''H''), (CHR ''J'', CHR ''N''),
      (CHR ''P'', CHR ''Z''), (CHR ''0'', CHR ''9'')]"

definition address_rx :: rx where
  "address_rx =
     Seq (Alt (Lit ''bc1'') (Cls [(CHR ''1'', CHR ''1''), (CHR ''3'', CHR ''3'')]))
         (Rep 25 90 (Cls address_alphabet))"

text \<open>
  The address pattern in the words of the specification: one of the prefixes \<open>bc1\<close>,
  \<open>1\<close>, \<open>3\<close>, followed by 25 to 90 characters of the alphabet.
\<close>

definition alphabet_char :: "char \<Rightarrow> bool" where
  "alphabet_char c = list_ex (in_range c) address_alphabet"

definition has_prefix_body :: "string \<Rightarrow> string \<Rightarrow> bool" where
  "has_prefix_body s p =
     (startswith s p \<and> 25 \<le> length s - length p \<and> length s - length p \<le> 90
      \<and> list_all alphabet_char (drop (length p) s))"

definition valid_address :: "string \<Rightarrow> bool" where
  "valid_address s = list_ex (has_prefix_body s) [''bc1'', ''1'', ''3'']"

section \<open>Exceptions, log lines and observable events\<close>

text \<open>
  \<open>exc\<close> are the exceptions below \<open>Exception\<close> that the program can meet;
  \<open>KeyboardInterrupt\<close> is not one of them, so \<open>except Exception\<close> lets it pass.
  \<open>Timeout\<close>, \<open>ProxyError\<close>, \<open>ConnectionError\<close> and \<open>HTTPError\<close> are subclasses of
  \<open>RequestException\<close>.
\<close>

datatype exc =
    RequestException | Timeout | ProxyError | ConnectionError | HTTPError
  | ValueError | KeyError | OSError | ParserError | ReError | RuntimeError

datatype py_exn = Exc exc | KeyboardInterrupt

fun is_RequestException :: "exc \<Rightarrow> bool" where
  "is_RequestException RequestException = True"
| "is_RequestException Timeout = True"
| "is_RequestException ProxyError = True"
| "is_RequestException ConnectionError = True"
| "is_RequestException HTTPError = True"
| "is_RequestException _ = False"

text \<open>The \<open>except\<close> clause of \<open>_request_with_retry\<close>.\<close>

fun retry_catches :: "py_exn \<Rightarrow> bool" where
  "retry_catches (Exc e) = (is_RequestException e \<or> e = ValueError)"
| "retry_catches KeyboardInterrupt = False"

datatype level = INFO | WARNING | ERROR

datatype message =
    Starting | UsingProxy string | AttemptFailed nat py_exn real
  | TableNotFound | NoRowsFound | InvalidAddress string
  | Saved nat | SaveFailed exc
  | ReachedMaxPages int | TestModeComplete | FailedToRetrieve nat | ThreeEmptyPages
  | NoMorePages | Interrupted | CriticalError exc | ScrapingComplete nat
  | Searching string | DatabaseNotFound | NoMatching | ResultsSaved string | Found nat
  | SearchFailed exc

datatype cell = NaN | Val string

datatype event =
    Log level message
  | Sleep real
  | HttpGet string "string option"
  | FileRead string
  | FileWrite string
  | Print "cell list list"

section \<open>Pages\<close>

text \<open>
  What the program reads off a parsed page: the rows (\<open>tr\<close>) of the first table of
  class \<open>table-striped\<close>, each the list of its cells (\<open>td\<close>), and whether an
  \<open>a rel="next"\<close> element is present. A cell gives its text and its first \<open>a\<close>
  element, which may lack the attribute \<open>href\<close>.
\<close>

datatype anchor = NoAnchor | Anchor "string option"

record td =
  cell_text :: string
  cell_link :: anchor

record dom =
  table_rows :: "td list list option"
  next_button :: bool

record response =
  status_code :: nat
  resp_text :: string

datatype net_outcome = Raises py_exn | Responds response

text \<open>
  The libraries and the outside world, as parameters of the model: the network
  (by URL and attempt), the random numbers drawn, the clock, the HTML parser,
  \<open>urljoin\<close>, and pandas' \<open>Series.str.contains(pat, case=False)\<close> on one value.
\<close>

record env =
  net :: "string \<Rightarrow> nat \<Rightarrow> net_outcome"
  jitter :: "string \<Rightarrow> nat \<Rightarrow> real"
  delay :: "nat \<Rightarrow> real"
  now :: "nat \<Rightarrow> nat \<Rightarrow> string"
  soup :: "string \<Rightarrow> dom"
  urljoin :: "string \<Rightarrow> string \<Rightarrow> exc + string"
  str_contains :: "string \<Rightarrow> string \<Rightarrow> exc + bool"

section \<open>Records and the persistent file\<close>

record key_record =
  index :: string
  address :: string
  balance :: string
  private_key :: string
  details_url :: string
  timestamp :: string

text \<open>
  A \<open>DataFrame\<close> is its column names and its rows. The file at \<open>output_file\<close> is
  identified with the frame last written to it: how \<open>read_csv\<close> infers types from
  the text of the file is not modelled.
\<close>

record dataframe =
  columns :: "string list"
  rows :: "cell list list"

datatype csv_file = Missing | Corrupt exc | Csv dataframe

text \<open>
  The scraper object (the fields of \<open>self\<close>) together with the part of the world it
  acts on: the file at \<open>output_file\<close>, the error a write to it meets (if any), the
  files \<open>search_database\<close> exports (kept apart from the dataset file), and the trace
  of log lines, sleeps and I/O.
\<close>

record scraper =
  output_file :: string
  max_pages :: "int option"
  test_mode :: bool
  scraped_data :: "key_record list"
  proxy :: "string option"
  proxy_index :: nat
  proxies :: "string list"
  session_closed :: bool
  dataset :: csv_file
  write_fault :: "exc option"
  exports :: "string \<Rightarrow> (string \<times> dataframe) option"
  export_fault :: "string \<Rightarrow> exc option"
  trace :: "event list"

definition BASE_URL :: string where
  "BASE_URL = ''https://privatekeyfinder.io/private-keys/bitcoin/''"

definition RETRY_LIMIT :: nat where
  "RETRY_LIMIT = 5"

definition SAVE_INTERVAL :: nat where
  "SAVE_INTERVAL = 3"

definition PROXY_LIST :: "string list" where
  "PROXY_LIST = [[], [], [], [], []]"

text \<open>The object \<open>__init__\<close> builds with its defaults, in a world with no file yet.\<close>

definition new_scraper :: scraper where
  "new_scraper =
     \<lparr>output_file = ''bitcoin_keys.csv'', max_pages = None, test_mode = False,
      scraped_data = [], proxy = None, proxy_index = 0, proxies = PROXY_LIST,
      session_closed = False, dataset = Missing, write_fault = None,
      exports = (\<lambda>path. None), export_fault = (\<lambda>path. None), trace = []\<rparr>"

definition emit :: "event \<Rightarrow> scraper \<Rightarrow> scraper" where
  "emit e s = s\<lparr>trace := trace s @ [e]\<rparr>"

definition log :: "level \<Rightarrow> message \<Rightarrow> scraper \<Rightarrow> scraper" where
  "log l m s = emit (Log l m) s"

section \<open>\<open>_parse_page\<close>\<close>

datatype row_result = Skipped | Rejected string | Extracted key_record

definition details_of :: "env \<Rightarrow> td \<Rightarrow> exc + string" where
  "details_of env c =
     (case cell_link c of
        NoAnchor \<Rightarrow> Inr []
      | Anchor None \<Rightarrow> Inl KeyError
      | Anchor (Some href) \<Rightarrow> urljoin env BASE_URL href)"

definition parse_row :: "env \<Rightarrow> string \<Rightarrow> td list \<Rightarrow> exc + row_result" where
  "parse_row env stamp cols =
     (if length cols < 5 then Inr Skipped
      else case details_of env (cols ! 4) of
             Inl e \<Rightarrow> Inl e
           | Inr url \<Rightarrow>
               (let addr = py_strip (cell_text (cols ! 1)) in
                if \<not> re_match_anchored address_rx addr then Inr (Rejected addr)
                else Inr (Extracted \<lparr>index = py_strip (cell_text (cols ! 0)), address = addr,
                       balance = py_strip (cell_text (cols ! 2)),
                       private_key = py_strip (cell_text (cols ! 3)),
                       details_url = url, timestamp = stamp\<rparr>)))"

fun parse_rows ::
  "env \<Rightarrow> (nat \<Rightarrow> string) \<Rightarrow> nat \<Rightarrow> td list list \<Rightarrow> key_record list \<Rightarrow> scraper
     \<Rightarrow> (exc + key_record list) \<times> scraper" where
  "parse_rows env clock i [] page_data s = (Inr page_data, s)"
| "parse_rows env clock i (row # rest) page_data s =
     (case parse_row env (clock i) row of
        Inl e \<Rightarrow> (Inl e, s)
      | Inr Skipped \<Rightarrow> parse_rows env clock (Suc i) rest page_data s
      | Inr (Rejected a) \<Rightarrow>
          parse_rows env clock (Suc i) rest page_data (log WARNING (InvalidAddress a) s)
      | Inr (Extracted r) \<Rightarrow> parse_rows env clock (Suc i) rest (page_data @ [r]) s)"

definition parse_page ::
  "env \<Rightarrow> (nat \<Rightarrow> string) \<Rightarrow> string \<Rightarrow> scraper \<Rightarrow> (exc + key_record list) \<times> scraper" where
  "parse_page env clock html_content s =
     (case table_rows (soup env html_content) of
        None \<Rightarrow> (Inr [], log ERROR TableNotFound s)
      | Some trs \<Rightarrow>
          (if tl trs = [] then (Inr [], log INFO NoRowsFound s)
           else parse_rows env clock 0 (tl trs) [] s))"

section \<open>\<open>_save_progress\<close>\<close>

definition record_columns :: "string list" where
  "record_columns =
     [''index'', ''address'', ''balance'', ''private_key'', ''details_url'', ''timestamp'']"

definition record_row :: "key_record \<Rightarrow> cell list" where
  "record_row r =
     [Val (index r), Val (address r), Val (balance r), Val (private_key r),
      Val (details_url r), Val (timestamp r)]"

definition DataFrame :: "key_record list \<Rightarrow> dataframe" where
  "DataFrame recs = \<lparr>columns = record_columns, rows = map record_row recs\<rparr>"

text \<open>
  \<open>pd.concat([a, b], ignore_index=True)\<close>: the columns of \<open>a\<close>, then those of \<open>b\<close>
  that \<open>a\<close> lacks; the rows of \<open>a\<close>, then those of \<open>b\<close>, each aligned by column name
  and filled with \<open>NaN\<close> where its frame has no such column.
\<close>

definition cell_at :: "string list \<Rightarrow> cell list \<Rightarrow> string \<Rightarrow> cell" where
  "cell_at cols r c = (case map_of (zip cols r) c of None \<Rightarrow> NaN | Some v \<Rightarrow> v)"

definition reindex :: "string list \<Rightarrow> dataframe \<Rightarrow> cell list list" where
  "reindex cols df = map (\<lambda>r. map (cell_at (columns df) r) cols) (rows df)"

definition pd_concat :: "dataframe \<Rightarrow> dataframe \<Rightarrow> dataframe" where
  "pd_concat a b =
     (let cols = columns a @ filter (\<lambda>c. c \<notin> set (columns a)) (columns b)
      in \<lparr>columns = cols, rows = reindex cols a @ reindex cols b\<rparr>)"

definition read_csv :: "scraper \<Rightarrow> (py_exn + dataframe) \<times> scraper" where
  "read_csv s =
     (case dataset s of
        Missing \<Rightarrow> Inl (Exc OSError)
      | Corrupt e \<Rightarrow> Inl (Exc e)
      | Csv df \<Rightarrow> Inr df,
      emit (FileRead (output_file s)) s)"

definition to_csv :: "dataframe \<Rightarrow> scraper \<Rightarrow> py_exn option \<times> scraper" where
  "to_csv df s =
     (case write_fault s of
        Some e \<Rightarrow> (Some (Exc e), emit (FileWrite (output_file s)) s)
      | None \<Rightarrow> (None, (emit (FileWrite (output_file s)) s)\<lparr>dataset := Csv df\<rparr>))"

text \<open>The body of the \<open>try\<close> block; \<open>Some e\<close> is the exception it raises.\<close>

definition save_try :: "bool \<Rightarrow> scraper \<Rightarrow> py_exn option \<times> scraper" where
  "save_try force_save s =
     (let df = DataFrame (scraped_data s) in
      case (if dataset s \<noteq> Missing
            then (case read_csv s of
                    (Inl e, s1) \<Rightarrow> (Some e, s1)
                  | (Inr existing_df, s1) \<Rightarrow> to_csv (pd_concat existing_df df) s1)
            else to_csv df s) of
        (Some e, s2) \<Rightarrow> (Some e, s2)
      | (None, s2) \<Rightarrow>
          (None, if force_save then log INFO (Saved (length (rows df))) s2 else s2))"

text \<open>
  \<open>except Exception\<close> handles an \<open>Exc\<close>, anything else propagates; \<open>finally\<close>
  empties the buffer on every path.
\<close>

definition save_progress :: "bool \<Rightarrow> scraper \<Rightarrow> py_exn option \<times> scraper" where
  "save_progress force_save s =
     (if scraped_data s = [] then (None, s)
      else case save_try force_save s of
             (None, s1) \<Rightarrow> (None, s1\<lparr>scraped_data := []\<rparr>)
           | (Some (Exc e), s1) \<Rightarrow> (None, (log ERROR (SaveFailed e) s1)\<lparr>scraped_data := []\<rparr>)
           | (Some KeyboardInterrupt, s1) \<Rightarrow> (Some KeyboardInterrupt, s1\<lparr>scraped_data := []\<rparr>))"

section \<open>\<open>_request_with_retry\<close>\<close>

definition rotate_proxy :: "scraper \<Rightarrow> string option \<times> scraper" where
  "rotate_proxy s =
     (if proxies s = [] then (None, s)
      else (let i = (proxy_index s + 1) mod length (proxies s)
            in (Some (proxies s ! i), s\<lparr>proxy_index := i\<rparr>)))"

text \<open>The proxy handed to \<open>session.get\<close>; \<open>None\<close> stands for the empty dictionary.\<close>

definition pick_proxy :: "scraper \<Rightarrow> string option \<times> scraper" where
  "pick_proxy s =
     (if proxy s = Some ''auto'' then
        (case rotate_proxy s of
           (Some p, s1) \<Rightarrow> if p \<noteq> [] then (Some p, log INFO (UsingProxy p) s1) else (None, s1)
         | (None, s1) \<Rightarrow> (None, s1))
      else (case proxy s of
              Some p \<Rightarrow> if p \<noteq> [] \<and> p \<noteq> ''none'' then (Some p, s) else (None, s)
            | None \<Rightarrow> (None, s)))"

definition blocking_indicators :: "string list" where
  "blocking_indicators =
     [''cloudflare'', ''access denied'', ''captcha'', ''403 forbidden'', ''blocked'',
      ''security check'']"

text \<open>\<open>raise_for_status\<close>, the blocking test and the table marker test.\<close>

definition is_blocked :: "string \<Rightarrow> bool" where
  "is_blocked body = list_ex (\<lambda>indicator. py_in indicator (py_lower body)) blocking_indicators"

definition has_table_marker :: "string \<Rightarrow> bool" where
  "has_table_marker body = py_in ''table table-striped'' body"

definition check_response :: "response \<Rightarrow> py_exn + response" where
  "check_response r =
     (if 400 \<le> status_code r \<and> status_code r < 600 then Inl (Exc HTTPError)
      else if is_blocked (resp_text r) then Inl (Exc RequestException)
      else if \<not> has_table_marker (resp_text r) then Inl (Exc ValueError)
      else Inr r)"

text \<open>What \<open>session.get\<close> and the three checks give on one attempt.\<close>

definition attempt_outcome :: "env \<Rightarrow> string \<Rightarrow> nat \<Rightarrow> py_exn + response" where
  "attempt_outcome env url attempt =
     (case net env url attempt of Raises e \<Rightarrow> Inl e | Responds r \<Rightarrow> check_response r)"

definition attempt_once ::
  "env \<Rightarrow> string \<Rightarrow> nat \<Rightarrow> scraper \<Rightarrow> (py_exn + response) \<times> scraper" where
  "attempt_once env url attempt s =
     (case pick_proxy s of
        (px, s1) \<Rightarrow> (attempt_outcome env url attempt, emit (HttpGet url px) s1))"

text \<open>\<open>for attempt in range(RETRY_LIMIT)\<close>, as a recursion over the attempts left.\<close>

fun request_attempts ::
  "env \<Rightarrow> string \<Rightarrow> nat list \<Rightarrow> scraper \<Rightarrow> (py_exn + response option) \<times> scraper" where
  "request_attempts env url [] s = (Inr None, s)"
| "request_attempts env url (attempt # rest) s =
     (case attempt_once env url attempt s of
        (Inr r, s1) \<Rightarrow> (Inr (Some r), s1)
      | (Inl e, s1) \<Rightarrow>
          if retry_catches e
          then request_attempts env url rest
                 (emit (Sleep (2 ^ attempt + jitter env url attempt))
                    (log WARNING (AttemptFailed (attempt + 1) e (2 ^ attempt + jitter env url attempt)) s1))
          else (Inl e, s1))"

definition request_with_retry ::
  "env \<Rightarrow> string \<Rightarrow> scraper \<Rightarrow> (py_exn + response option) \<times> scraper" where
  "request_with_retry env url s = request_attempts env url [0..<RETRY_LIMIT] s"

section \<open>\<open>scrape_database\<close>\<close>

definition digit_char :: "nat \<Rightarrow> char" where
  "digit_char d = char_of (48 + d)"

function str_nat :: "nat \<Rightarrow> string" where
  "str_nat n = (if n < 10 then [digit_char n] else str_nat (n div 10) @ [digit_char (n mod 10)])"
  by pat_completeness auto
termination
  by (relation "measure (\<lambda>n. n)") auto

definition page_url :: "nat \<Rightarrow> string" where
  "page_url page = (if page > 1 then BASE_URL @ ''?page='' @ str_nat page else BASE_URL)"

record loop_vars =
  page :: nat
  total_records :: nat
  consecutive_empty :: nat

datatype stop =
    MaxPagesReached | TestModeDone | FetchFailed | EmptyPages | NoNextPage | Raised py_exn

text \<open>\<open>self.max_pages and page > self.max_pages\<close>: \<open>None\<close> and \<open>0\<close> are both false.\<close>

definition over_max_pages :: "scraper \<Rightarrow> nat \<Rightarrow> bool" where
  "over_max_pages s p = (case max_pages s of None \<Rightarrow> False | Some m \<Rightarrow> m \<noteq> 0 \<and> int p > m)"

text \<open>
  One turn of the \<open>while True\<close> loop, in three parts. The result is the reason the
  loop is left (\<open>None\<close> to go round again), the loop variables and the state.
\<close>

definition after_page ::
  "env \<Rightarrow> response \<Rightarrow> loop_vars \<Rightarrow> scraper \<Rightarrow> stop option \<times> loop_vars \<times> scraper" where
  "after_page env r v s =
     (case (if page v mod SAVE_INTERVAL = 0 then save_progress False s else (None, s)) of
        (Some e, s1) \<Rightarrow> (Some (Raised e), v, s1)
      | (None, s1) \<Rightarrow>
          if \<not> next_button (soup env (resp_text r))
          then (Some NoNextPage, v, log INFO NoMorePages s1)
          else (None, v\<lparr>page := page v + 1\<rparr>, s1))"

definition process_page ::
  "env \<Rightarrow> response \<Rightarrow> loop_vars \<Rightarrow> scraper \<Rightarrow> stop option \<times> loop_vars \<times> scraper" where
  "process_page env r v s =
     (case parse_page env (now env (page v)) (resp_text r) s of
        (Inl e, s1) \<Rightarrow> (Some (Raised (Exc e)), v, s1)
      | (Inr page_data, s1) \<Rightarrow>
          if page_data = [] then
            (if consecutive_empty v + 1 \<ge> 3
             then (Some EmptyPages, v\<lparr>consecutive_empty := consecutive_empty v + 1\<rparr>,
                   log INFO ThreeEmptyPages s1)
             else after_page env r (v\<lparr>consecutive_empty := consecutive_empty v + 1\<rparr>) s1)
          else after_page env r
                 (v\<lparr>consecutive_empty := 0,
                    total_records := total_records v + length page_data\<rparr>)
                 (s1\<lparr>scraped_data := scraped_data s1 @ page_data\<rparr>))"

definition iteration ::
  "env \<Rightarrow> loop_vars \<Rightarrow> scraper \<Rightarrow> stop option \<times> loop_vars \<times> scraper" where
  "iteration env v s =
     (if over_max_pages s (page v)
      then (Some MaxPagesReached, v,
            log INFO (ReachedMaxPages (case max_pages s of Some m \<Rightarrow> m | None \<Rightarrow> 0)) s)
      else if test_mode s \<and> page v > 2 then (Some TestModeDone, v, log INFO TestModeComplete s)
      else case request_with_retry env (page_url (page v)) (emit (Sleep (delay env (page v))) s) of
             (Inl e, s1) \<Rightarrow> (Some (Raised e), v, s1)
           | (Inr None, s1) \<Rightarrow> (Some FetchFailed, v, log ERROR (FailedToRetrieve (page v)) s1)
           | (Inr (Some r), s1) \<Rightarrow> process_page env r v s1)"

partial_function (option) scrape_loop ::
  "env \<Rightarrow> loop_vars \<Rightarrow> scraper \<Rightarrow> (stop \<times> loop_vars \<times> scraper) option" where
  "scrape_loop env v s =
     (case iteration env v s of
        (Some st, v1, s1) \<Rightarrow> Some (st, v1, s1)
      | (None, v1, s1) \<Rightarrow> scrape_loop env v1 s1)"




section \<open>\<open>search_database\<close>\<close>

definition astype_str :: "cell \<Rightarrow> string" where
  "astype_str c = (case c of NaN \<Rightarrow> ''nan'' | Val v \<Rightarrow> v)"

text \<open>\<open>row.astype(str).str.contains(keyword, case=False).any()\<close> for one row.\<close>

fun contains_each :: "(string \<Rightarrow> exc + bool) \<Rightarrow> string list \<Rightarrow> exc + bool list" where
  "contains_each f [] = Inr []"
| "contains_each f (x # xs) =
     (case f x of
        Inl e \<Rightarrow> Inl e
      | Inr b \<Rightarrow> (case contains_each f xs of Inl e \<Rightarrow> Inl e | Inr bs \<Rightarrow> Inr (b # bs)))"

definition row_mask :: "env \<Rightarrow> string \<Rightarrow> cell list \<Rightarrow> exc + bool" where
  "row_mask env keyword row =
     (case contains_each (str_contains env keyword) (map astype_str row) of
        Inl e \<Rightarrow> Inl e
      | Inr bs \<Rightarrow> Inr (list_ex (\<lambda>b. b) bs))"

text \<open>\<open>df[mask]\<close>, with the mask computed row by row.\<close>

fun select_rows :: "env \<Rightarrow> string \<Rightarrow> cell list list \<Rightarrow> exc + cell list list" where
  "select_rows env keyword [] = Inr []"
| "select_rows env keyword (r # rs) =
     (case row_mask env keyword r of
        Inl e \<Rightarrow> Inl e
      | Inr b \<Rightarrow>
          (case select_rows env keyword rs of
             Inl e \<Rightarrow> Inl e
           | Inr out \<Rightarrow> Inr (if b then r # out else out)))"

definition display_columns :: "string list" where
  "display_columns = [''index'', ''address'', ''balance'', ''private_key'', ''details_url'']"

definition export_name :: "string \<Rightarrow> string \<Rightarrow> string" where
  "export_name keyword ext = ''search_results_'' @ keyword @ ''.'' @ ext"

definition write_export :: "string \<Rightarrow> string \<Rightarrow> dataframe \<Rightarrow> scraper \<Rightarrow> exc option \<times> scraper" where
  "write_export path fmt df s =
     (case export_fault s path of
        Some e \<Rightarrow> (Some e, emit (FileWrite path) s)
      | None \<Rightarrow>
          (None, (emit (FileWrite path) s)\<lparr>exports := (exports s)(path := Some (fmt, df))\<rparr>))"

definition output_results ::
  "string \<Rightarrow> string \<Rightarrow> dataframe \<Rightarrow> scraper \<Rightarrow> exc option \<times> scraper" where
  "output_results keyword output_format results s =
     (if output_format = ''console'' then
        (if list_all (\<lambda>c. c \<in> set (columns results)) display_columns
         then (None, emit (Print (reindex display_columns results)) s)
         else (Some KeyError, s))
      else if output_format = ''csv'' then
        (case write_export (export_name keyword ''csv'') ''csv'' results s of
           (Some e, s1) \<Rightarrow> (Some e, s1)
         | (None, s1) \<Rightarrow> (None, log INFO (ResultsSaved (export_name keyword ''csv'')) s1))
      else if output_format = ''json'' then
        (case write_export (export_name keyword ''json'') ''json'' results s of
           (Some e, s1) \<Rightarrow> (Some e, s1)
         | (None, s1) \<Rightarrow> (None, log INFO (ResultsSaved (export_name keyword ''json'')) s1))
      else (None, s))"

text \<open>\<open>results.to_dict('records')\<close>: each row as its (column, value) pairs.\<close>

definition to_dict :: "string list \<Rightarrow> cell list list \<Rightarrow> (string \<times> cell) list list" where
  "to_dict cols rs = map (zip cols) rs"

definition search_try ::
  "env \<Rightarrow> string \<Rightarrow> string \<Rightarrow> scraper \<Rightarrow> (py_exn + (string \<times> cell) list list) \<times> scraper" where
  "search_try env keyword output_format s =
     (case read_csv s of
        (Inl e, s1) \<Rightarrow> (Inl e, s1)
      | (Inr df, s1) \<Rightarrow>
          (case select_rows env keyword (rows df) of
             Inl e \<Rightarrow> (Inl (Exc e), s1)
           | Inr results \<Rightarrow>
               if results = [] then (Inr [], log INFO NoMatching s1)
               else (case output_results keyword output_format (df\<lparr>rows := results\<rparr>) s1 of
                       (Some e, s2) \<Rightarrow> (Inl (Exc e), s2)
                     | (None, s2) \<Rightarrow>
                         (Inr (to_dict (columns df) results),
                          log INFO (Found (length results)) s2))))"

definition search_database ::
  "env \<Rightarrow> string \<Rightarrow> string \<Rightarrow> scraper \<Rightarrow> (py_exn + (string \<times> cell) list list) \<times> scraper" where
  "search_database env keyword output_format s =
     (if dataset s = Missing
      then (Inr [], log ERROR DatabaseNotFound (log INFO (Searching keyword) s))
      else case search_try env keyword output_format (log INFO (Searching keyword) s) of
             (Inr found, s1) \<Rightarrow> (Inr found, s1)
           | (Inl (Exc e), s1) \<Rightarrow> (Inr [], log ERROR (SearchFailed e) s1)
           | (Inl KeyboardInterrupt, s1) \<Rightarrow> (Inl KeyboardInterrupt, s1))"







fun dot_rx :: "string \<Rightarrow> rx" where
  "dot_rx [] = Lit []"
| "dot_rx (c # pat) = Seq (if c = CHR ''.'' then AnyChar else Lit [c]) (dot_rx pat)"

definition regex_contains :: "string \<Rightarrow> string \<Rightarrow> exc + bool" where
  "regex_contains pat v = Inr (re_search_ic (dot_rx pat) v)"


section \<open>The notions the properties are stated in\<close>

subsection \<open>Addresses\<close>

text \<open>
  The body of an address (what follows the prefix), and what the anchored pattern
  accepts after the prefix: a body, or a body and one final newline.
\<close>

definition body_ok :: "string \<Rightarrow> bool" where
  "body_ok t = (25 \<le> length t \<and> length t \<le> 90 \<and> list_all alphabet_char t)"

definition accepts_body :: "string \<Rightarrow> bool" where
  "accepts_body t = (body_ok t \<or> (t \<noteq> [] \<and> last t = CHR 0x0A \<and> body_ok (butlast t)))"

text \<open>
  The addresses of a page: the stripped text of the second cell of every row after
  the first that has at least five cells, the rows from which \<open>_parse_page\<close> takes
  fields. \<open>invalid_logged\<close> reads the warnings for rejected addresses off a trace.
\<close>

definition row_address :: "td list \<Rightarrow> string" where
  "row_address cols = py_strip (cell_text (cols ! 1))"

definition wide :: "td list list \<Rightarrow> td list list" where
  "wide trs = filter (\<lambda>cols. 5 \<le> length cols) trs"

definition page_addresses :: "env \<Rightarrow> string \<Rightarrow> string list" where
  "page_addresses env html =
     (case table_rows (soup env html) of
        None \<Rightarrow> []
      | Some trs \<Rightarrow> map row_address (wide (tl trs)))"

fun invalid_logged :: "event list \<Rightarrow> string list" where
  "invalid_logged [] = []"
| "invalid_logged (Log WARNING (InvalidAddress a) # es) = a # invalid_logged es"
| "invalid_logged (e # es) = invalid_logged es"

definition all_valid :: "key_record list \<Rightarrow> bool" where
  "all_valid recs = list_all (\<lambda>r. valid_address (address r)) recs"

subsection \<open>The file\<close>


text \<open>
  The error that a flush of a non-empty buffer meets, if any.
\<close>

definition flush_fault :: "scraper \<Rightarrow> exc option" where
  "flush_fault s = (case dataset s of Corrupt e \<Rightarrow> Some e | _ \<Rightarrow> write_fault s)"






subsection \<open>The fetcher and the controller\<close>

text \<open>
  What the network holds for a page, read without the scraper's state: the first
  attempt that succeeds, \<open>None\<close> when every attempt fails in a way the retry loop
  catches, or the exception that passes through it. \<open>parsed\<close> is what the parser
  makes of a response. Neither depends on the state (shown below), so \<open>parsed\<close> is
  read at the fresh scraper.
\<close>

fun first_success :: "env \<Rightarrow> string \<Rightarrow> nat list \<Rightarrow> py_exn + response option" where
  "first_success env url [] = Inr None"
| "first_success env url (attempt # rest) =
     (case attempt_outcome env url attempt of
        Inr r \<Rightarrow> Inr (Some r)
      | Inl e \<Rightarrow> if retry_catches e then first_success env url rest else Inl e)"

definition fetched :: "env \<Rightarrow> nat \<Rightarrow> py_exn + response option" where
  "fetched env p = first_success env (page_url p) [0..<RETRY_LIMIT]"

definition parsed :: "env \<Rightarrow> nat \<Rightarrow> response \<Rightarrow> exc + key_record list" where
  "parsed env p r = fst (parse_page env (now env p) (resp_text r) new_scraper)"

definition attempt_fails :: "env \<Rightarrow> string \<Rightarrow> nat \<Rightarrow> bool" where
  "attempt_fails env url attempt =
     (case attempt_outcome env url attempt of Inl e \<Rightarrow> retry_catches e | Inr r \<Rightarrow> False)"

fun sleeps :: "event list \<Rightarrow> real list" where
  "sleeps [] = []"
| "sleeps (Sleep d # es) = d # sleeps es"
| "sleeps (e # es) = sleeps es"

definition empty_page :: "env \<Rightarrow> nat \<Rightarrow> bool" where
  "empty_page env p =
     (case fetched env p of Inr (Some r) \<Rightarrow> parsed env p r = Inr [] | _ \<Rightarrow> False)"

definition has_next :: "env \<Rightarrow> nat \<Rightarrow> bool" where
  "has_next env p =
     (case fetched env p of Inr (Some r) \<Rightarrow> next_button (soup env (resp_text r)) | _ \<Rightarrow> False)"

text \<open>
  The stop conditions in the order of the specification: page-count limit,
  test-mode cap, fetch failure, three consecutive empty pages, no next page.
  An exception raised by the fetch or by the parser ends the loop where it occurs.
\<close>

definition stop_decision :: "env \<Rightarrow> scraper \<Rightarrow> loop_vars \<Rightarrow> stop option" where
  "stop_decision env s v =
     (if over_max_pages s (page v) then Some MaxPagesReached
      else if test_mode s \<and> page v > 2 then Some TestModeDone
      else case fetched env (page v) of
             Inl e \<Rightarrow> Some (Raised e)
           | Inr None \<Rightarrow> Some FetchFailed
           | Inr (Some r) \<Rightarrow>
               (case parsed env (page v) r of
                  Inl e \<Rightarrow> Some (Raised (Exc e))
                | Inr recs \<Rightarrow>
                    if recs = [] \<and> consecutive_empty v + 1 \<ge> 3 then Some EmptyPages
                    else if \<not> next_button (soup env (resp_text r)) then Some NoNextPage
                    else None))"

text \<open>
  The loop variables after one turn, read off the network and the parser.
\<close>

definition counted :: "loop_vars \<Rightarrow> key_record list \<Rightarrow> loop_vars" where
  "counted v recs =
     (if recs = [] then v\<lparr>consecutive_empty := consecutive_empty v + 1\<rparr>
      else v\<lparr>consecutive_empty := 0, total_records := total_records v + length recs\<rparr>)"

definition next_vars :: "env \<Rightarrow> scraper \<Rightarrow> loop_vars \<Rightarrow> loop_vars" where
  "next_vars env s v =
     (if over_max_pages s (page v) \<or> (test_mode s \<and> page v > 2) then v
      else case fetched env (page v) of
             Inr (Some r) \<Rightarrow>
               (case parsed env (page v) r of
                  Inl e \<Rightarrow> v
                | Inr recs \<Rightarrow>
                    if recs = [] \<and> consecutive_empty v + 1 \<ge> 3 then counted v recs
                    else if \<not> next_button (soup env (resp_text r)) then counted v recs
                    else (counted v recs)\<lparr>page := page v + 1\<rparr>)
           | _ \<Rightarrow> v)"

text \<open>
  \<open>quiet\<close> steps touch nothing but the trace and the proxy position. In one turn
  the loop may add parsed records (all with valid addresses) to the buffer and
  count them, possibly flush, and otherwise only log.
\<close>

definition quiet :: "scraper \<Rightarrow> scraper \<Rightarrow> bool" where
  "quiet s s' =
     (output_file s' = output_file s \<and> max_pages s' = max_pages s \<and> test_mode s' = test_mode s
      \<and> scraped_data s' = scraped_data s \<and> proxy s' = proxy s \<and> proxies s' = proxies s
      \<and> session_closed s' = session_closed s \<and> dataset s' = dataset s
      \<and> write_fault s' = write_fault s \<and> exports s' = exports s
      \<and> export_fault s' = export_fault s)"

definition step_rel :: "loop_vars \<Rightarrow> scraper \<Rightarrow> loop_vars \<Rightarrow> scraper \<Rightarrow> bool" where
  "step_rel v s v1 s1 =
     (\<exists>recs q b. quiet s q \<and> all_valid recs
        \<and> quiet (if b then snd (save_progress False (q\<lparr>scraped_data := scraped_data q @ recs\<rparr>))
                  else q\<lparr>scraped_data := scraped_data q @ recs\<rparr>) s1
        \<and> total_records v1 = total_records v + length recs
        \<and> (page v1 = page v \<or> page v1 = page v + 1))"

text \<open>The URLs requested according to a trace.\<close>

fun requested :: "event list \<Rightarrow> string list" where
  "requested [] = []"
| "requested (HttpGet url px # es) = url # requested es"
| "requested (e # es) = requested es"


subsection \<open>The search\<close>


definition selected :: "env \<Rightarrow> string \<Rightarrow> scraper \<Rightarrow> cell list list" where
  "selected env keyword s =
     (case dataset s of
        Csv df \<Rightarrow> (case select_rows env keyword (rows df) of Inr rs \<Rightarrow> rs | Inl e \<Rightarrow> [])
      | _ \<Rightarrow> [])"

fun writes :: "event list \<Rightarrow> string list" where
  "writes [] = []"
| "writes (FileWrite path # es) = path # writes es"
| "writes (e # es) = writes es"

section \<open>Sample data\<close>

text \<open>
  Records and files.
\<close>

definition sample_record :: key_record where
  "sample_record =
     \<lparr>index = ''7'', address = ''1A1zP1eP5QGefi2DMPTfTL5SLmv7DivfNa'', balance = ''0 BTC'',
      private_key = ''5Kb8kLf9zgWQnogidDA76MzPL6TsZZY36hWXMssSzNydYXYB9KF'',
      details_url = [], timestamp = ''2024-01-01T00:00:00''\<rparr>"

definition old_frame :: dataframe where
  "old_frame =
     \<lparr>columns = record_columns,
      rows = [[Val ''1'', Val ''3J98t1WpEZ73CNmQviecrnyiWrnqRhWNLy'', Val ''1 BTC'', Val ''key'',
               NaN, Val ''2023-12-31T00:00:00'']]\<rparr>"


definition stored_scraper :: scraper where
  "stored_scraper = new_scraper\<lparr>dataset := Csv old_frame\<rparr>"


text \<open>
  Pages, as the HTML parser presents them, and an environment over a given network.
  Its \<open>urljoin\<close> appends a relative reference to the base, and its \<open>str.contains\<close>
  is the regular-expression search for patterns whose only special character is the
  dot.
\<close>

definition plain_cell :: "string \<Rightarrow> td" where
  "plain_cell t = \<lparr>cell_text = t, cell_link = NoAnchor\<rparr>"

definition header_row :: "td list" where
  "header_row = map plain_cell [''#'', ''Address'', ''Balance'', ''Private Key'', ''Details'']"

definition good_row :: "td list" where
  "good_row =
     [plain_cell ''7'', plain_cell '' 1A1zP1eP5QGefi2DMPTfTL5SLmv7DivfNa '', plain_cell ''0 BTC'',
      plain_cell ''5Kb8kLf9zgWQnogidDA76MzPL6TsZZY36hWXMssSzNydYXYB9KF'',
      \<lparr>cell_text = ''view'', cell_link = Anchor (Some ''details/7'')\<rparr>]"

definition bad_address_row :: "td list" where
  "bad_address_row =
     [plain_cell ''8'', plain_cell ''not-an-address'', plain_cell ''0 BTC'', plain_cell ''key'',
      plain_cell []]"

definition no_href_row :: "td list" where
  "no_href_row =
     [plain_cell ''9'', plain_cell ''1A1zP1eP5QGefi2DMPTfTL5SLmv7DivfNa'', plain_cell ''0 BTC'',
      plain_cell ''key'', \<lparr>cell_text = ''view'', cell_link = Anchor None\<rparr>]"

definition full_next_html :: string where
  "full_next_html = ''<table class=table table-striped> rows, next''"

definition full_last_html :: string where
  "full_last_html = ''<table class=table table-striped> rows, last''"

definition empty_next_html :: string where
  "empty_next_html = ''<div class=table table-striped> nothing, next''"

definition no_href_html :: string where
  "no_href_html = ''<table class=table table-striped> link without href''"

definition blocked_html :: string where
  "blocked_html = ''<title>Attention Required! | Cloudflare</title> table table-striped''"

definition sample_soup :: "string \<Rightarrow> dom" where
  "sample_soup html =
     (if html = full_next_html
      then \<lparr>table_rows = Some [header_row, good_row, bad_address_row], next_button = True\<rparr>
      else if html = full_last_html
      then \<lparr>table_rows = Some [header_row, good_row], next_button = False\<rparr>
      else if html = no_href_html
      then \<lparr>table_rows = Some [header_row, no_href_row], next_button = False\<rparr>
      else if html = empty_next_html
      then \<lparr>table_rows = None, next_button = True\<rparr>
      else \<lparr>table_rows = None, next_button = False\<rparr>)"

definition ok_page :: "string \<Rightarrow> net_outcome" where
  "ok_page html = Responds \<lparr>status_code = 200, resp_text = html\<rparr>"

definition sample_env :: "(string \<Rightarrow> nat \<Rightarrow> net_outcome) \<Rightarrow> env" where
  "sample_env network =
     \<lparr>net = network, jitter = (\<lambda>url attempt. 1 / 2), delay = (\<lambda>page. 3),
      now = (\<lambda>page row. ''2024-01-01T00:00:00''), soup = sample_soup,
      urljoin = (\<lambda>base href. Inr (base @ href)), str_contains = regex_contains\<rparr>"

text \<open>
  Networks, and the loop variables at the start of a run.
\<close>

definition first_turn :: loop_vars where
  "first_turn = \<lparr>page = 1, total_records = 0, consecutive_empty = 0\<rparr>"

definition always :: "string \<Rightarrow> string \<Rightarrow> nat \<Rightarrow> net_outcome" where
  "always html url attempt = ok_page html"

definition two_pages :: "string \<Rightarrow> nat \<Rightarrow> net_outcome" where
  "two_pages url attempt =
     (if url = BASE_URL then ok_page full_next_html else ok_page full_last_html)"

definition flaky :: "string \<Rightarrow> nat \<Rightarrow> net_outcome" where
  "flaky url attempt =
     (if attempt = 0 then Raises (Exc Timeout)
      else if attempt = 1 then ok_page blocked_html
      else if attempt = 2 then ok_page ''<html>maintenance</html>''
      else ok_page full_last_html)"

definition down :: "string \<Rightarrow> nat \<Rightarrow> net_outcome" where
  "down url attempt = Raises (Exc ConnectionError)"


section \<open>The address pattern\<close>

lemma set_rep_match_cls:
  "set (rep_match (cls_match False rs) lo hi s) =
     {drop k s | k. lo \<le> k \<and> k \<le> hi \<and> k \<le> length s \<and> list_all (in_class False rs) (take k s)}"
proof (induction hi arbitrary: lo s)
  case 0
  then show ?case by auto
next
  case (Suc hi)
  show ?case
  proof (cases s)
    case Nil
    then show ?thesis by (auto simp: cls_match_def)
  next
    case (Cons c t)
    show ?thesis
    proof (cases "in_class False rs c")
      case False
      have k0: "k = 0" if "list_all (in_class False rs) (take k s)" for k
        using that Cons False by (cases k) auto
      have "{drop k s | k. lo \<le> k \<and> k \<le> Suc hi \<and> k \<le> length s \<and> list_all (in_class False rs) (take k s)}
          = (if lo = 0 then {s} else {})"
        by (auto dest: k0 intro: exI[of _ 0])
      moreover have "set (rep_match (cls_match False rs) lo (Suc hi) s) = (if lo = 0 then {s} else {})"
        using Cons False by (simp add: cls_match_def)
      ultimately show ?thesis by simp
    next
      case True
      have "set (rep_match (cls_match False rs) lo (Suc hi) s)
          = set (rep_match (cls_match False rs) (lo - 1) hi t) \<union> (if lo = 0 then {s} else {})"
        using Cons True by (simp add: cls_match_def)
      also have "\<dots> = {drop k s | k. lo \<le> k \<and> k \<le> Suc hi \<and> k \<le> length s \<and> list_all (in_class False rs) (take k s)}"
        (is "?L = ?R")
      proof (intro set_eqI iffI)
        fix x assume "x \<in> ?L"
        then consider (a) "x \<in> set (rep_match (cls_match False rs) (lo - 1) hi t)" | (b) "lo = 0" "x = s"
          by (auto split: if_splits)
        then show "x \<in> ?R"
        proof cases
          case a
          then obtain k where k: "x = drop k t" "lo - 1 \<le> k" "k \<le> hi" "k \<le> length t"
            "list_all (in_class False rs) (take k t)" unfolding Suc.IH by blast
          show ?thesis
            apply (rule CollectI, rule exI[of _ "Suc k"])
            using k Cons True by auto
        next
          case b
          show ?thesis
            apply (rule CollectI, rule exI[of _ 0])
            using b by auto
        qed
      next
        fix x assume "x \<in> ?R"
        then obtain k where k: "x = drop k s" "lo \<le> k" "k \<le> Suc hi" "k \<le> length s"
          "list_all (in_class False rs) (take k s)" by blast
        show "x \<in> ?L"
        proof (cases k)
          case 0
          with k show ?thesis by auto
        next
          case (Suc j)
          have "x \<in> set (rep_match (cls_match False rs) (lo - 1) hi t)"
            unfolding Suc.IH
            apply (rule CollectI, rule exI[of _ j])
            using k Suc Cons by auto
          then show ?thesis by simp
        qed
      qed
      finally show ?thesis .
    qed
  qed
qed

lemma char_code_inj: "char_code c = char_code d \<longleftrightarrow> c = d"
  by (simp add: char_code_def)

lemma in_class_13: "in_class False [(CHR ''1'', CHR ''1''), (CHR ''3'', CHR ''3'')] c \<longleftrightarrow> c = CHR ''1'' \<or> c = CHR ''3''"
  by (auto simp: in_class_def in_range_def char_code_inj[symmetric] simp del: char_code_inj)

lemma in_class_alphabet: "in_class False address_alphabet = alphabet_char"
  by (rule ext) (simp add: in_class_def alphabet_char_def)

lemma strip_last: "py_strip s \<noteq> [] \<Longrightarrow> \<not> is_space (last (py_strip s))"
proof -
  assume a: "py_strip s \<noteq> []"
  let ?r = "dropWhile is_space (rev (dropWhile is_space s))"
  have ne: "?r \<noteq> []" using a by (simp add: py_strip_def)
  then have "\<not> is_space (hd ?r)" by (rule hd_dropWhile)
  moreover have "last (py_strip s) = hd ?r" using ne by (simp add: py_strip_def last_rev)
  ultimately show ?thesis by simp
qed

lemma newline_space: "is_space (CHR 0x0A)"
  by (simp add: is_space_def char_code_def)

lemma has_prefix_body_alt: "has_prefix_body s p = (startswith s p \<and> body_ok (drop (length p) s))"
  by (simp add: has_prefix_body_def body_ok_def)

lemma rep_dollar:
  "list_ex at_dollar (rep_match (cls_match False address_alphabet) 25 90 t) \<longleftrightarrow>
     body_ok t \<or> (t \<noteq> [] \<and> last t = CHR 0x0A \<and> body_ok (butlast t))"
  (is "?L \<longleftrightarrow> ?R")
proof
  assume ?L
  then obtain k where k: "25 \<le> k" "k \<le> 90" "k \<le> length t" "list_all alphabet_char (take k t)"
    "at_dollar (drop k t)"
    unfolding list_ex_iff set_rep_match_cls by (auto simp: in_class_alphabet)
  from k(5) consider (e) "drop k t = []" | (n) "drop k t = [CHR 0x0A]"
    by (auto simp: at_dollar_def)
  then show ?R
  proof cases
    case e
    with k have "take k t = t" by simp
    with k show ?thesis by (auto simp: body_ok_def)
  next
    case n
    have t: "t = take k t @ [CHR 0x0A]" using n append_take_drop_id[of k t] by simp
    have len: "length (take k t) = k" using k by simp
    have "butlast t = take k t" using t by (metis butlast_snoc)
    moreover have "last t = CHR 0x0A" using t by (metis last_snoc)
    moreover have "t \<noteq> []" using t by auto
    ultimately show ?thesis using k len by (auto simp: body_ok_def)
  qed
next
  assume r: ?R
  show ?L
  proof (cases "body_ok t")
    case True
    then have "drop (length t) t \<in> set (rep_match (cls_match False address_alphabet) 25 90 t)"
      unfolding set_rep_match_cls
      by (intro CollectI exI[of _ "length t"]) (auto simp: body_ok_def in_class_alphabet)
    then show ?thesis unfolding list_ex_iff by (auto simp: at_dollar_def)
  next
    case False
    with r have h: "t \<noteq> []" "last t = CHR 0x0A" "body_ok (butlast t)" by auto
    let ?k = "length t - 1"
    have tk: "take ?k t = butlast t" by (simp add: butlast_conv_take)
    have dk: "drop ?k t = [CHR 0x0A]" using h(1,2)
      by (metis append_butlast_last_id append_eq_conv_conj length_butlast)
    have "drop ?k t \<in> set (rep_match (cls_match False address_alphabet) 25 90 t)"
      unfolding set_rep_match_cls
      apply (intro CollectI exI[of _ ?k])
      using h(3) tk by (auto simp: body_ok_def in_class_alphabet)
    then show ?thesis unfolding list_ex_iff using dk by (auto simp: at_dollar_def)
  qed
qed

lemma list_ex_concat_map: "list_ex P (concat (map f xs)) = list_ex (\<lambda>x. list_ex P (f x)) xs"
  by (induction xs) auto

lemma address_rx_char:
  "re_match_anchored address_rx s \<longleftrightarrow>
     list_ex (\<lambda>p. startswith s p \<and> accepts_body (drop (length p) s)) [''bc1'', ''1'', ''3'']"
proof -
  let ?R = "rep_match (cls_match False address_alphabet) 25 90"
  have r: "list_ex at_dollar (?R t) = accepts_body t" for t
    using rep_dollar[of t] by (simp add: accepts_body_def)
  have "re_match_anchored address_rx s \<longleftrightarrow>
      list_ex accepts_body (lit_match False ''bc1'' s
         @ cls_match False [(CHR ''1'', CHR ''1''), (CHR ''3'', CHR ''3'')] s)"
    by (simp add: re_match_anchored_def address_rx_def list_ex_concat_map r)
  also have "\<dots> \<longleftrightarrow> list_ex (\<lambda>p. startswith s p \<and> accepts_body (drop (length p) s)) [''bc1'', ''1'', ''3'']"
    by (cases s) (auto simp: lit_match_def startswith_def in_class_13 cls_match_def)
  finally show ?thesis .
qed

lemma accepts_body_drop:
  assumes "s = [] \<or> last s \<noteq> CHR 0x0A"
  shows "accepts_body (drop n s) = body_ok (drop n s)"
proof (cases "drop n s = []")
  case True
  then show ?thesis by (simp add: accepts_body_def)
next
  case False
  then have "last (drop n s) = last s" by (simp add: last_drop)
  moreover have "s \<noteq> []" using False by auto
  ultimately show ?thesis using assms by (simp add: accepts_body_def)
qed

lemma address_rx_valid:
  assumes "s = [] \<or> last s \<noteq> CHR 0x0A"
  shows "re_match_anchored address_rx s = valid_address s"
  by (simp add: address_rx_char valid_address_def has_prefix_body_alt accepts_body_drop[OF assms])

lemma address_rx_strip: "re_match_anchored address_rx (py_strip t) = valid_address (py_strip t)"
proof (rule address_rx_valid)
  show "py_strip t = [] \<or> last (py_strip t) \<noteq> CHR 0x0A"
    using strip_last[of t] newline_space by auto
qed


section \<open>Flushing the buffer\<close>


lemma save_try_cases:
  "save_try f s =
     (case dataset s of
        Missing \<Rightarrow> (case write_fault s of
            Some e \<Rightarrow> (Some (Exc e), emit (FileWrite (output_file s)) s)
          | None \<Rightarrow> (None, (if f then log INFO (Saved (length (scraped_data s))) else id)
                       ((emit (FileWrite (output_file s)) s)\<lparr>dataset := Csv (DataFrame (scraped_data s))\<rparr>)))
      | Corrupt e \<Rightarrow> (Some (Exc e), emit (FileRead (output_file s)) s)
      | Csv df \<Rightarrow> (case write_fault s of
            Some e \<Rightarrow> (Some (Exc e), emit (FileWrite (output_file s)) (emit (FileRead (output_file s)) s))
          | None \<Rightarrow> (None, (if f then log INFO (Saved (length (scraped_data s))) else id)
                       ((emit (FileWrite (output_file s)) (emit (FileRead (output_file s)) s))
                          \<lparr>dataset := Csv (pd_concat df (DataFrame (scraped_data s)))\<rparr>))))"
  by (simp add: save_try_def read_csv_def to_csv_def emit_def log_def DataFrame_def Let_def
        split: csv_file.splits option.splits)

lemma save_try_exc: "fst (save_try f s) \<noteq> Some KeyboardInterrupt"
  by (simp add: save_try_cases split: csv_file.splits option.splits)

lemma save_progress_no_raise: "fst (save_progress f s) = None"
proof (cases "scraped_data s = []")
  case True
  then show ?thesis by (simp add: save_progress_def)
next
  case False
  obtain r s1 where st: "save_try f s = (r, s1)" by (cases "save_try f s")
  with save_try_exc[of f s] have "r \<noteq> Some KeyboardInterrupt" by simp
  with False st show ?thesis
    by (auto simp: save_progress_def split: option.splits py_exn.splits)
qed

lemma save_progress_clears: "scraped_data (snd (save_progress f s)) = []"
proof (cases "scraped_data s = []")
  case True
  then show ?thesis by (simp add: save_progress_def)
next
  case False
  then show ?thesis
    by (auto simp: save_progress_def split: option.splits py_exn.splits prod.splits)
qed

lemma save_progress_fault:
  assumes "scraped_data s \<noteq> []" "flush_fault s = Some e"
  shows "\<exists>s1. save_progress f s = (None, (log ERROR (SaveFailed e) s1)\<lparr>scraped_data := []\<rparr>)"
  using assms
  by (auto simp: save_progress_def save_try_cases flush_fault_def split: csv_file.splits option.splits)















text \<open>
  Claim C3. With an empty buffer a flush, forced or not, returns at once: no
  exception, and the state as it was, so the file is unchanged and the trace has
  no new read or write.
\<close>

theorem flush_empty_buffer_noop:
  "scraped_data s = [] \<Longrightarrow> save_progress force_save s = (None, s)"
  by (simp add: save_progress_def)

theorem flush_empty_buffer_noop_witness:
  "scraped_data (new_scraper\<lparr>dataset := Csv old_frame\<rparr>) = []
   \<and> save_progress True (new_scraper\<lparr>dataset := Csv old_frame\<rparr>)
       = (None, new_scraper\<lparr>dataset := Csv old_frame\<rparr>)
   \<and> save_progress False (new_scraper\<lparr>dataset := Csv old_frame\<rparr>)
       = (None, new_scraper\<lparr>dataset := Csv old_frame\<rparr>)"
proof -
  let ?s = "new_scraper\<lparr>dataset := Csv old_frame\<rparr>"
  have h: "scraped_data ?s = []" by (simp add: new_scraper_def)
  from flush_empty_buffer_noop[OF h, of True] flush_empty_buffer_noop[OF h, of False] h
  show ?thesis by simp
qed

text \<open>
  Claim C4. A flush never lets an exception out and always leaves the buffer
  empty; when the read or the write of the file fails with \<open>e\<close> during a flush of
  a non-empty buffer, the last thing logged is the error line for \<open>e\<close>.
\<close>

theorem flush_failure_is_contained:
  "fst (save_progress force_save s) = None
   \<and> scraped_data (snd (save_progress force_save s)) = []
   \<and> (scraped_data s \<noteq> [] \<and> flush_fault s = Some e \<longrightarrow>
        (\<exists>tr. trace (snd (save_progress force_save s)) = tr @ [Log ERROR (SaveFailed e)]))"
proof (intro conjI impI)
  show "fst (save_progress force_save s) = None" by (rule save_progress_no_raise)
  show "scraped_data (snd (save_progress force_save s)) = []" by (rule save_progress_clears)
next
  assume a: "scraped_data s \<noteq> [] \<and> flush_fault s = Some e"
  then obtain s1 where
    "save_progress force_save s = (None, (log ERROR (SaveFailed e) s1)\<lparr>scraped_data := []\<rparr>)"
    using save_progress_fault[of s e force_save] by blast
  then show "\<exists>tr. trace (snd (save_progress force_save s)) = tr @ [Log ERROR (SaveFailed e)]"
    by (simp add: log_def emit_def)
qed

theorem flush_failure_is_contained_witness:
  "scraped_data (new_scraper\<lparr>scraped_data := [sample_record], dataset := Csv old_frame,
       write_fault := Some OSError\<rparr>) \<noteq> []
   \<and> flush_fault (new_scraper\<lparr>scraped_data := [sample_record], dataset := Csv old_frame,
       write_fault := Some OSError\<rparr>) = Some OSError
   \<and> fst (save_progress True (new_scraper\<lparr>scraped_data := [sample_record],
       dataset := Csv old_frame, write_fault := Some OSError\<rparr>)) = None
   \<and> scraped_data (snd (save_progress True (new_scraper\<lparr>scraped_data := [sample_record],
       dataset := Csv old_frame, write_fault := Some OSError\<rparr>))) = []
   \<and> (\<exists>tr. trace (snd (save_progress True (new_scraper\<lparr>scraped_data := [sample_record],
       dataset := Csv old_frame, write_fault := Some OSError\<rparr>))) = tr @ [Log ERROR (SaveFailed OSError)])"
proof -
  let ?s = "new_scraper\<lparr>scraped_data := [sample_record], dataset := Csv old_frame,
       write_fault := Some OSError\<rparr>"
  have h1: "scraped_data ?s \<noteq> []" by simp
  have h2: "flush_fault ?s = Some OSError" by (simp add: flush_fault_def)
  from flush_failure_is_contained[of True ?s OSError] h1 h2
  show ?thesis by blast
qed

section \<open>Parsing a page\<close>

lemma invalid_logged_append: "invalid_logged (xs @ ys) = invalid_logged xs @ invalid_logged ys"
  by (induction xs rule: invalid_logged.induct) auto

lemma parse_row_Skipped: "parse_row env st cols = Inr Skipped \<longleftrightarrow> length cols < 5"
  by (auto simp: parse_row_def Let_def split: sum.splits)

lemma parse_row_Rejected:
  "parse_row env st cols = Inr (Rejected a) \<Longrightarrow>
     5 \<le> length cols \<and> a = row_address cols \<and> \<not> valid_address a"
  by (auto simp: parse_row_def Let_def row_address_def address_rx_strip split: sum.splits if_splits)

lemma parse_row_Extracted:
  "parse_row env st cols = Inr (Extracted r) \<Longrightarrow>
     5 \<le> length cols \<and> address r = row_address cols \<and> valid_address (address r)"
  by (auto simp: parse_row_def Let_def row_address_def address_rx_strip split: sum.splits if_splits)

lemma parse_rows_result:
  "parse_rows env clock i trs acc s = (Inr out, s') \<Longrightarrow>
     map address out = map address acc @ filter valid_address (map row_address (wide trs)) \<and>
     s' = s\<lparr>trace := trace s @ map (\<lambda>a. Log WARNING (InvalidAddress a))
                (filter (\<lambda>a. \<not> valid_address a) (map row_address (wide trs)))\<rparr>"
proof (induction trs arbitrary: i acc s)
  case Nil
  then show ?case by (simp add: wide_def)
next
  case (Cons row rest)
  show ?case
  proof (cases "parse_row env (clock i) row")
    case (Inl e)
    with Cons.prems show ?thesis by simp
  next
    case (Inr rr)
    show ?thesis
    proof (cases rr)
      case Skipped
      with Inr have w: "length row < 5" by (simp add: parse_row_Skipped)
      have "parse_rows env clock (Suc i) rest acc s = (Inr out, s')"
        using Cons.prems Inr Skipped by simp
      from Cons.IH[OF this] w show ?thesis by (simp add: wide_def)
    next
      case (Rejected a)
      with Inr have h: "5 \<le> length row" "a = row_address row" "\<not> valid_address a"
        using parse_row_Rejected by blast+
      have "parse_rows env clock (Suc i) rest acc (log WARNING (InvalidAddress a) s) = (Inr out, s')"
        using Cons.prems Inr Rejected by simp
      from Cons.IH[OF this] h show ?thesis by (simp add: wide_def log_def emit_def)
    next
      case (Extracted r)
      with Inr have h: "5 \<le> length row" "address r = row_address row" "valid_address (address r)"
        using parse_row_Extracted by blast+
      have "parse_rows env clock (Suc i) rest (acc @ [r]) s = (Inr out, s')"
        using Cons.prems Inr Extracted by simp
      from Cons.IH[OF this] h show ?thesis by (simp add: wide_def)
    qed
  qed
qed

lemma parse_page_result:
  assumes "parse_page env clock html s = (Inr out, s')"
  shows "map address out = filter valid_address (page_addresses env html)"
    and "invalid_logged (trace s') =
           invalid_logged (trace s) @ filter (\<lambda>a. \<not> valid_address a) (page_addresses env html)"
    and "s'\<lparr>trace := trace s\<rparr> = s"
proof -
  have inv: "invalid_logged (map (\<lambda>a. Log WARNING (InvalidAddress a)) xs) = xs" for xs
    by (induction xs) auto
  show "map address out = filter valid_address (page_addresses env html)"
    and "invalid_logged (trace s') =
           invalid_logged (trace s) @ filter (\<lambda>a. \<not> valid_address a) (page_addresses env html)"
    and "s'\<lparr>trace := trace s\<rparr> = s"
  proof (atomize (full), cases "table_rows (soup env html)")
    case None
    with assms show "map address out = filter valid_address (page_addresses env html) \<and>
        invalid_logged (trace s') = invalid_logged (trace s) @ filter (\<lambda>a. \<not> valid_address a) (page_addresses env html) \<and>
        s'\<lparr>trace := trace s\<rparr> = s"
      by (auto simp: parse_page_def page_addresses_def log_def emit_def invalid_logged_append)
  next
    case (Some trs)
    show "map address out = filter valid_address (page_addresses env html) \<and>
        invalid_logged (trace s') = invalid_logged (trace s) @ filter (\<lambda>a. \<not> valid_address a) (page_addresses env html) \<and>
        s'\<lparr>trace := trace s\<rparr> = s"
    proof (cases "tl trs = []")
      case True
      with assms Some show ?thesis
        by (auto simp: parse_page_def page_addresses_def wide_def log_def emit_def invalid_logged_append)
    next
      case False
      with assms Some have "parse_rows env clock 0 (tl trs) [] s = (Inr out, s')"
        by (simp add: parse_page_def)
      from parse_rows_result[OF this] Some show ?thesis
        by (simp add: page_addresses_def invalid_logged_append inv)
    qed
  qed
qed

lemma parse_page_valid:
  assumes "parse_page env clock html s = (Inr out, s')"
  shows "list_all (\<lambda>r. valid_address (address r)) out"
proof -
  have "list_all valid_address (map address out)"
    unfolding parse_page_result(1)[OF assms] by (simp add: list_all_iff)
  then show ?thesis by (simp add: list_all_iff)
qed

text \<open>The parser raises only through the link of a fifth cell.\<close>

lemma parse_rows_raises:
  "fst (parse_rows env clock i trs acc s) = Inl e \<Longrightarrow>
     \<exists>cols. cols \<in> set (wide trs) \<and> details_of env (cols ! 4) = Inl e"
proof (induction trs arbitrary: i acc s)
  case Nil
  then show ?case by simp
next
  case (Cons row rest)
  show ?case
  proof (cases "parse_row env (clock i) row")
    case (Inl e')
    with Cons.prems have "e' = e" by simp
    with Inl have "5 \<le> length row" "details_of env (row ! 4) = Inl e"
      by (auto simp: parse_row_def Let_def split: if_splits sum.splits)
    then show ?thesis by (auto simp: wide_def)
  next
    case (Inr rr)
    with Cons.prems have "\<exists>i' acc' s'. fst (parse_rows env clock i' rest acc' s') = Inl e"
      by (cases rr) auto
    then obtain cols where "cols \<in> set (wide rest)" "details_of env (cols ! 4) = Inl e"
      using Cons.IH by blast
    then show ?thesis by (auto simp: wide_def)
  qed
qed

lemma parse_page_raises_only_on_links:
  assumes "fst (parse_page env clock html s) = Inl e"
  shows "\<exists>trs cols. table_rows (soup env html) = Some trs \<and> cols \<in> set (wide (tl trs))
           \<and> details_of env (cols ! 4) = Inl e"
  using assms parse_rows_raises[of env clock 0 _ "[]" s e]
  by (auto simp: parse_page_def split: option.splits if_splits)

section \<open>The controller\<close>

lemma quiet_refl: "quiet s s"
  by (simp add: quiet_def)

lemma quiet_trans: "quiet a b \<Longrightarrow> quiet b c \<Longrightarrow> quiet a c"
  by (simp add: quiet_def)

lemma quiet_emit: "quiet s (emit e s)"
  by (simp add: quiet_def emit_def)

lemma quiet_log: "quiet s (log l m s)"
  by (simp add: log_def quiet_emit)

lemma quiet_pick_proxy: "quiet s (snd (pick_proxy s))"
  by (auto simp: pick_proxy_def rotate_proxy_def quiet_def log_def emit_def Let_def
      split: option.splits prod.splits)

lemma quiet_attempt_once: "quiet s (snd (attempt_once env url a s))"
proof -
  obtain px s1 where p: "pick_proxy s = (px, s1)" by (cases "pick_proxy s")
  then have "quiet s s1" using quiet_pick_proxy[of s] by simp
  then have "quiet s (emit (HttpGet url px) s1)" by (rule quiet_trans) (rule quiet_emit)
  then show ?thesis using p by (simp add: attempt_once_def)
qed

lemma quiet_request_attempts: "quiet s (snd (request_attempts env url as s))"
proof (induction as arbitrary: s)
  case Nil
  show ?case by (simp add: quiet_refl)
next
  case (Cons a as)
  obtain r s1 where at: "attempt_once env url a s = (r, s1)" by (cases "attempt_once env url a s")
  then have q1: "quiet s s1" using quiet_attempt_once[of s env url a] by simp
  show ?case
  proof (cases r)
    case (Inr resp)
    with at q1 show ?thesis by simp
  next
    case (Inl e)
    show ?thesis
    proof (cases "retry_catches e")
      case False
      with Inl at q1 show ?thesis by simp
    next
      case True
      let ?w = "2 ^ a + jitter env url a"
      let ?s2 = "emit (Sleep ?w) (log WARNING (AttemptFailed (a + 1) e ?w) s1)"
      have "quiet s ?s2"
        using q1 quiet_log quiet_emit quiet_trans by blast
      then have "quiet s (snd (request_attempts env url as ?s2))"
        using Cons.IH[of ?s2] quiet_trans by blast
      with Inl True at show ?thesis by simp
    qed
  qed
qed

lemma quiet_request: "quiet s (snd (request_with_retry env url s))"
  by (simp add: request_with_retry_def quiet_request_attempts)

lemma quiet_parse_page: "quiet s (snd (parse_page env clock html s))"
proof -
  have q: "quiet s (snd (parse_rows env clock i trs acc s))" for i trs acc
  proof (induction trs arbitrary: i acc s)
    case Nil
    show ?case by (simp add: quiet_refl)
  next
    case (Cons row rest)
    show ?case
      using Cons.IH quiet_trans[OF quiet_log Cons.IH] quiet_refl
      by (auto split: sum.splits row_result.splits)
  qed
  show ?thesis
    using q quiet_log by (auto simp: parse_page_def split: option.splits)
qed

lemma loop_invariant:
  assumes run: "scrape_loop env v s = Some (st, v', s')"
    and init: "I v s"
    and step: "\<And>v s x v1 s1. I v s \<Longrightarrow> iteration env v s = (x, v1, s1) \<Longrightarrow> I v1 s1"
  shows "I v' s'"
proof -
  have "env = env \<longrightarrow> I v s \<longrightarrow> I (fst (snd (st, v', s'))) (snd (snd (st, v', s')))"
  proof (rule scrape_loop.raw_induct
      [where P = "\<lambda>e w t y. e = env \<longrightarrow> I w t \<longrightarrow> I (fst (snd y)) (snd (snd y))", OF _ run])
    fix loop e w t y
    assume IH: "\<And>e w t y. loop e w t = Some y \<Longrightarrow> e = env \<longrightarrow> I w t \<longrightarrow> I (fst (snd y)) (snd (snd y))"
      and body: "(case iteration e w t of (None, v1, s1) \<Rightarrow> loop e v1 s1
                  | (Some st, v1, s1) \<Rightarrow> Some (st, v1, s1)) = Some y"
    show "e = env \<longrightarrow> I w t \<longrightarrow> I (fst (snd y)) (snd (snd y))"
    proof (intro impI)
      assume e: "e = env" and i: "I w t"
      obtain x v1 s1 where it: "iteration env w t = (x, v1, s1)" by (cases "iteration env w t")
      from step[OF i it] have i1: "I v1 s1" .
      show "I (fst (snd y)) (snd (snd y))"
      proof (cases x)
        case None
        with body it e have "loop env v1 s1 = Some y" by simp
        from IH[OF this] i1 show ?thesis by simp
      next
        case (Some stp)
        with body it e have "y = (stp, v1, s1)" by simp
        with i1 show ?thesis by simp
      qed
    qed
  qed
  with init show ?thesis by simp
qed

lemma sleeps_append: "sleeps (xs @ ys) = sleeps xs @ sleeps ys"
  by (induction xs rule: sleeps.induct) auto

lemma attempt_once_fst: "fst (attempt_once env url a s) = attempt_outcome env url a"
  by (simp add: attempt_once_def split: prod.splits)

lemma sleeps_pick_proxy: "sleeps (trace (snd (pick_proxy s))) = sleeps (trace s)"
  by (auto simp: pick_proxy_def rotate_proxy_def log_def emit_def Let_def sleeps_append
      split: option.splits prod.splits)

lemma sleeps_attempt_once: "sleeps (trace (snd (attempt_once env url a s))) = sleeps (trace s)"
proof -
  obtain px s1 where p: "pick_proxy s = (px, s1)" by (cases "pick_proxy s")
  then have "sleeps (trace s1) = sleeps (trace s)" using sleeps_pick_proxy[of s] by simp
  then show ?thesis using p by (simp add: attempt_once_def emit_def sleeps_append)
qed

lemma request_attempts_fst: "fst (request_attempts env url as s) = first_success env url as"
proof (induction as arbitrary: s)
  case Nil
  show ?case by simp
next
  case (Cons a as)
  obtain r s1 where at: "attempt_once env url a s = (r, s1)" by (cases "attempt_once env url a s")
  then have r: "r = attempt_outcome env url a" using attempt_once_fst[of env url a s] by simp
  show ?case using at r Cons.IH by (auto split: sum.splits)
qed

lemma request_fst: "fst (request_with_retry env (page_url p) s) = fetched env p"
  by (simp add: request_with_retry_def fetched_def request_attempts_fst)

lemma request_attempts_all_fail:
  assumes "list_all (attempt_fails env url) as"
  shows "fst (request_attempts env url as s) = Inr None
    \<and> sleeps (trace (snd (request_attempts env url as s)))
        = sleeps (trace s) @ map (\<lambda>i. 2 ^ i + jitter env url i) as"
  using assms
proof (induction as arbitrary: s)
  case Nil
  show ?case by simp
next
  case (Cons a as)
  obtain r s1 where at: "attempt_once env url a s = (r, s1)" by (cases "attempt_once env url a s")
  then have r: "r = attempt_outcome env url a" using attempt_once_fst[of env url a s] by simp
  have sl: "sleeps (trace s1) = sleeps (trace s)" using at sleeps_attempt_once[of env url a s] by simp
  from Cons.prems have f: "attempt_fails env url a" and rest: "list_all (attempt_fails env url) as"
    by simp_all
  from f r obtain e where e: "r = Inl e" "retry_catches e"
    by (auto simp: attempt_fails_def split: sum.splits)
  let ?w = "2 ^ a + jitter env url a"
  let ?s2 = "emit (Sleep ?w) (log WARNING (AttemptFailed (a + 1) e ?w) s1)"
  have s2: "sleeps (trace ?s2) = sleeps (trace s) @ [?w]"
    using sl by (simp add: emit_def log_def sleeps_append)
  have "request_attempts env url (a # as) s = request_attempts env url as ?s2"
    using at e by simp
  with Cons.IH[OF rest, of ?s2] s2 show ?case by simp
qed

lemma request_attempts_success:
  assumes "list_all (attempt_fails env url) pre" and "attempt_outcome env url k = Inr r"
  shows "fst (request_attempts env url (pre @ k # post) s) = Inr (Some r)
    \<and> sleeps (trace (snd (request_attempts env url (pre @ k # post) s)))
        = sleeps (trace s) @ map (\<lambda>i. 2 ^ i + jitter env url i) pre"
  using assms(1)
proof (induction pre arbitrary: s)
  case Nil
  obtain x s1 where at: "attempt_once env url k s = (x, s1)" by (cases "attempt_once env url k s")
  then have "x = Inr r" using attempt_once_fst[of env url k s] assms(2) by simp
  moreover have "sleeps (trace s1) = sleeps (trace s)"
    using at sleeps_attempt_once[of env url k s] by simp
  ultimately show ?case using at by simp
next
  case (Cons a as)
  obtain x s1 where at: "attempt_once env url a s = (x, s1)" by (cases "attempt_once env url a s")
  then have x: "x = attempt_outcome env url a" using attempt_once_fst[of env url a s] by simp
  have sl: "sleeps (trace s1) = sleeps (trace s)" using at sleeps_attempt_once[of env url a s] by simp
  from Cons.prems have f: "attempt_fails env url a" and rest: "list_all (attempt_fails env url) as"
    by simp_all
  from f x obtain e where e: "x = Inl e" "retry_catches e"
    by (auto simp: attempt_fails_def split: sum.splits)
  let ?w = "2 ^ a + jitter env url a"
  let ?s2 = "emit (Sleep ?w) (log WARNING (AttemptFailed (a + 1) e ?w) s1)"
  have s2: "sleeps (trace ?s2) = sleeps (trace s) @ [?w]"
    using sl by (simp add: emit_def log_def sleeps_append)
  have "request_attempts env url ((a # as) @ k # post) s = request_attempts env url (as @ k # post) ?s2"
    using at e by simp
  with Cons.IH[OF rest, of ?s2] s2 show ?case by simp
qed

lemma upt_split: "k < n \<Longrightarrow> [0..<n] = [0..<k] @ k # [Suc k..<n]"
  by (metis le_add1 less_imp_add_positive upt_add_eq_append upt_conv_Cons plus_nat.add_0 less_or_eq_imp_le)

lemma parse_rows_fst:
  "fst (parse_rows env clock i trs acc s) = fst (parse_rows env clock i trs acc s')"
  by (induction trs arbitrary: i acc s s') (auto split: sum.splits row_result.splits)

lemma parse_page_fst: "fst (parse_page env (now env p) (resp_text r) s) = parsed env p r"
  using parse_rows_fst[of env "now env p" 0 _ "[]" s new_scraper]
  by (auto simp: parsed_def parse_page_def split: option.splits)

lemma quiet_save_config:
  "max_pages (snd (save_progress f s)) = max_pages s \<and> test_mode (snd (save_progress f s)) = test_mode s
   \<and> write_fault (snd (save_progress f s)) = write_fault s
   \<and> session_closed (snd (save_progress f s)) = session_closed s
   \<and> output_file (snd (save_progress f s)) = output_file s"
  by (auto simp: save_progress_def save_try_cases log_def emit_def
      split: csv_file.splits option.splits)

lemma after_page_result:
  "\<exists>s1 b. after_page env r v s =
      (if next_button (soup env (resp_text r)) then None else Some NoNextPage,
       if next_button (soup env (resp_text r)) then v\<lparr>page := page v + 1\<rparr> else v, s1)
     \<and> quiet (if b then snd (save_progress False s) else s) s1"
proof -
  let ?b = "page v mod SAVE_INTERVAL = 0"
  let ?sp = "if ?b then save_progress False s else (None, s)"
  have f: "fst ?sp = None" by (simp add: save_progress_no_raise)
  have sn: "snd ?sp = (if ?b then snd (save_progress False s) else s)" by simp
  obtain s0 where sp: "?sp = (None, s0)" using f by (cases ?sp) auto
  with sn have s0: "s0 = (if ?b then snd (save_progress False s) else s)" by simp
  show ?thesis
  proof (cases "next_button (soup env (resp_text r))")
    case True
    then have "after_page env r v s = (None, v\<lparr>page := page v + 1\<rparr>, s0)"
      using sp by (simp add: after_page_def)
    then show ?thesis using True s0 quiet_refl by (intro exI[of _ s0] exI[of _ ?b]) simp
  next
    case False
    then have "after_page env r v s = (Some NoNextPage, v, log INFO NoMorePages s0)"
      using sp by (simp add: after_page_def)
    then show ?thesis using False s0 quiet_log by (intro exI[of _ "log INFO NoMorePages s0"] exI[of _ ?b]) simp
  qed
qed

lemma step_rel_quiet: "quiet s s1 \<Longrightarrow> step_rel v s v s1"
  unfolding step_rel_def
  by (rule exI[of _ "[]"], rule exI[of _ s1], rule exI[of _ False])
     (simp add: all_valid_def quiet_refl)

lemma iteration_result:
  "\<exists>s1. iteration env v s = (stop_decision env s v, next_vars env s v, s1)
        \<and> step_rel v s (next_vars env s v) s1"
proof (cases "over_max_pages s (page v)")
  case True
  then show ?thesis
    by (simp add: iteration_def stop_decision_def next_vars_def step_rel_quiet quiet_log)
next
  case nomax: False
  show ?thesis
  proof (cases "test_mode s \<and> page v > 2")
    case True
    with nomax show ?thesis
      by (simp add: iteration_def stop_decision_def next_vars_def step_rel_quiet quiet_log)
  next
    case notest: False
    have g1: "over_max_pages s (page v) = False" using nomax by simp
    have g2: "(test_mode s \<and> 2 < page v) = False" using notest by simp
    let ?s0 = "emit (Sleep (delay env (page v))) s"
    obtain res s1 where rq: "request_with_retry env (page_url (page v)) ?s0 = (res, s1)"
      by (cases "request_with_retry env (page_url (page v)) ?s0")
    have res: "res = fetched env (page v)" using rq request_fst[of env "page v" ?s0] by simp
    have q1: "quiet s s1"
      using quiet_trans[OF quiet_emit quiet_request[of ?s0 env "page_url (page v)"]] rq by simp
    show ?thesis
    proof (cases res)
      case (Inl e)
      then have "iteration env v s = (Some (Raised e), v, s1)"
        using rq by (simp add: iteration_def g1 g2)
      then show ?thesis using Inl res q1
        by (simp add: stop_decision_def next_vars_def step_rel_quiet g1 g2)
    next
      case (Inr ro)
      show ?thesis
      proof (cases ro)
        case None
        then have "iteration env v s = (Some FetchFailed, v, log ERROR (FailedToRetrieve (page v)) s1)"
          using rq Inr by (simp add: iteration_def g1 g2)
        moreover have "quiet s (log ERROR (FailedToRetrieve (page v)) s1)"
          using q1 quiet_log quiet_trans by blast
        ultimately show ?thesis using Inr None res
          by (simp add: stop_decision_def next_vars_def step_rel_quiet g1 g2)
      next
        case (Some r)
        have it: "iteration env v s = process_page env r v s1"
          using rq Inr Some by (simp add: iteration_def g1 g2)
        obtain pr s2 where pp: "parse_page env (now env (page v)) (resp_text r) s1 = (pr, s2)"
          by (cases "parse_page env (now env (page v)) (resp_text r) s1")
        have pr: "pr = parsed env (page v) r" using pp parse_page_fst[of env "page v" r s1] by simp
        have q2: "quiet s s2"
          using quiet_trans[OF q1 quiet_parse_page[of s1 env "now env (page v)" "resp_text r"]] pp by simp
        have f: "fetched env (page v) = Inr (Some r)" using res Inr Some by simp
        show ?thesis
        proof (cases pr)
          case (Inl e)
          then have "iteration env v s = (Some (Raised (Exc e)), v, s2)"
            using it pp by (simp add: process_page_def)
          then show ?thesis using Inl pr f q2
            by (simp add: stop_decision_def next_vars_def step_rel_quiet g1 g2)
        next
          case recs: (Inr recs)
          have valid: "all_valid recs"
            using parse_page_valid[of env "now env (page v)" "resp_text r" s1 recs s2] pp recs
            by (simp add: all_valid_def)
          let ?v1 = "counted v recs"
          let ?s3 = "s2\<lparr>scraped_data := scraped_data s2 @ recs\<rparr>"
          show ?thesis
          proof (cases "recs = [] \<and> consecutive_empty v + 1 \<ge> 3")
            case True
            then have "iteration env v s = (Some EmptyPages, ?v1, log INFO ThreeEmptyPages s2)"
              using it pp recs by (simp add: process_page_def counted_def)
            moreover have "step_rel v s ?v1 (log INFO ThreeEmptyPages s2)"
              unfolding step_rel_def
              apply (rule exI[of _ "[]"], rule exI[of _ s2], rule exI[of _ False])
              using q2 quiet_log True by (simp add: all_valid_def counted_def)
            ultimately show ?thesis using True recs pr f
              by (simp add: stop_decision_def next_vars_def g1 g2)
          next
            case False
            have "process_page env r v s1 = after_page env r ?v1 ?s3"
            proof (cases "recs = []")
              case True
              with False pp recs show ?thesis by (simp add: process_page_def counted_def)
            next
              case ne: False
              with pp recs show ?thesis by (simp add: process_page_def counted_def)
            qed
            with it have it2: "iteration env v s = after_page env r ?v1 ?s3" by simp
            from after_page_result[of env r ?v1 ?s3] obtain s4 b where
              ap: "after_page env r ?v1 ?s3 =
                (if next_button (soup env (resp_text r)) then None else Some NoNextPage,
                 if next_button (soup env (resp_text r)) then ?v1\<lparr>page := page ?v1 + 1\<rparr> else ?v1, s4)"
              and q4: "quiet (if b then snd (save_progress False ?s3) else ?s3) s4"
              by blast
            have pg: "page ?v1 = page v" by (simp add: counted_def)
            have tot: "total_records ?v1 = total_records v + length recs" by (simp add: counted_def)
            have sr: "step_rel v s (if next_button (soup env (resp_text r)) then ?v1\<lparr>page := page ?v1 + 1\<rparr> else ?v1) s4"
              unfolding step_rel_def
              apply (rule exI[of _ recs], rule exI[of _ s2], rule exI[of _ b])
              using q2 valid q4 pg tot by auto
            show ?thesis
              using it2 ap sr False recs pr f pg
              by (auto simp: stop_decision_def next_vars_def g1 g2)
          qed
        qed
      qed
    qed
  qed
qed

lemma step_rel_config:
  assumes "step_rel v s v1 s1"
  shows "max_pages s1 = max_pages s" and "test_mode s1 = test_mode s"
    and "write_fault s1 = write_fault s" and "session_closed s1 = session_closed s"
proof -
  from assms obtain recs q b where
    q: "quiet s q"
    and q1: "quiet (if b then snd (save_progress False (q\<lparr>scraped_data := scraped_data q @ recs\<rparr>))
                  else q\<lparr>scraped_data := scraped_data q @ recs\<rparr>) s1"
    unfolding step_rel_def by blast
  let ?e = "q\<lparr>scraped_data := scraped_data q @ recs\<rparr>"
  have "max_pages s1 = max_pages s \<and> test_mode s1 = test_mode s
      \<and> write_fault s1 = write_fault s \<and> session_closed s1 = session_closed s"
    using q q1 quiet_save_config[of False ?e] by (cases b) (auto simp: quiet_def)
  then show "max_pages s1 = max_pages s" and "test_mode s1 = test_mode s"
    and "write_fault s1 = write_fault s" and "session_closed s1 = session_closed s"
    by simp_all
qed

lemma decision_config:
  assumes "max_pages s' = max_pages s" "test_mode s' = test_mode s"
  shows "stop_decision env s' v = stop_decision env s v" and "next_vars env s' v = next_vars env s v"
  using assms by (simp_all add: stop_decision_def next_vars_def over_max_pages_def)

lemma loop_unfold:
  "\<exists>s1. step_rel v s (next_vars env s v) s1 \<and>
     scrape_loop env v s =
       (case stop_decision env s v of
          Some st \<Rightarrow> Some (st, next_vars env s v, s1)
        | None \<Rightarrow> scrape_loop env (next_vars env s v) s1)"
proof -
  from iteration_result[of env v s] obtain s1 where
    it: "iteration env v s = (stop_decision env s v, next_vars env s v, s1)"
    and sr: "step_rel v s (next_vars env s v) s1" by blast
  have "scrape_loop env v s =
       (case stop_decision env s v of
          Some st \<Rightarrow> Some (st, next_vars env s v, s1)
        | None \<Rightarrow> scrape_loop env (next_vars env s v) s1)"
    by (subst scrape_loop.simps) (simp add: it split: option.splits)
  with sr show ?thesis by blast
qed

lemma over_max_mono: "over_max_pages s q \<Longrightarrow> q \<le> q' \<Longrightarrow> over_max_pages s q'"
  by (auto simp: over_max_pages_def split: option.splits)

lemma empty_page_step:
  assumes "empty_page env (page v)" "\<not> over_max_pages s (page v)" "\<not> (test_mode s \<and> page v > 2)"
  shows "stop_decision env s v =
           (if consecutive_empty v + 1 \<ge> 3 then Some EmptyPages
            else if has_next env (page v) then None else Some NoNextPage)"
    and "stop_decision env s v = None \<Longrightarrow>
           page (next_vars env s v) = page v + 1
           \<and> consecutive_empty (next_vars env s v) = consecutive_empty v + 1"
    and "stop_decision env s v \<noteq> None \<Longrightarrow> page (next_vars env s v) = page v"
proof -
  have g1: "over_max_pages s (page v) = False" using assms(2) by simp
  have g2: "(test_mode s \<and> 2 < page v) = False" using assms(3) by simp
  from assms(1) obtain r where r: "fetched env (page v) = Inr (Some r)" "parsed env (page v) r = Inr []"
    by (auto simp: empty_page_def split: sum.splits option.splits)
  show "stop_decision env s v =
           (if consecutive_empty v + 1 \<ge> 3 then Some EmptyPages
            else if has_next env (page v) then None else Some NoNextPage)"
    using r by (simp add: stop_decision_def has_next_def g1 g2)
  show "stop_decision env s v = None \<Longrightarrow>
           page (next_vars env s v) = page v + 1
           \<and> consecutive_empty (next_vars env s v) = consecutive_empty v + 1"
    using r by (auto simp: stop_decision_def next_vars_def counted_def g1 g2 split: if_splits)
  show "stop_decision env s v \<noteq> None \<Longrightarrow> page (next_vars env s v) = page v"
    using r by (auto simp: stop_decision_def next_vars_def counted_def g1 g2 split: if_splits)
qed

lemma empty_run:
  assumes "\<forall>q. page v \<le> q \<and> q \<le> page v + n \<longrightarrow>
             empty_page env q \<and> \<not> over_max_pages s q \<and> \<not> (test_mode s \<and> q > 2)"
    and "\<forall>q. page v \<le> q \<and> q < page v + n \<longrightarrow> has_next env q"
    and "consecutive_empty v + n \<ge> 2"
  shows "\<exists>v' s'. scrape_loop env v s = Some (EmptyPages, v', s') \<and> page v' \<le> page v + n"
  using assms
proof (induction n arbitrary: v s)
  case 0
  then have h: "empty_page env (page v)" "\<not> over_max_pages s (page v)" "\<not> (test_mode s \<and> page v > 2)"
    by auto
  from 0 have "consecutive_empty v + 1 \<ge> 3" by simp
  then have sd: "stop_decision env s v = Some EmptyPages" using empty_page_step(1)[OF h] by simp
  then have pg: "page (next_vars env s v) = page v" using empty_page_step(3)[OF h] by simp
  from loop_unfold[of v s env] sd pg show ?case by auto
next
  case (Suc n)
  then have h: "empty_page env (page v)" "\<not> over_max_pages s (page v)" "\<not> (test_mode s \<and> page v > 2)"
    by auto
  show ?case
  proof (cases "consecutive_empty v + 1 \<ge> 3")
    case True
    then have sd: "stop_decision env s v = Some EmptyPages" using empty_page_step(1)[OF h] by simp
    then have pg: "page (next_vars env s v) = page v" using empty_page_step(3)[OF h] by simp
    from loop_unfold[of v s env] sd pg show ?thesis by auto
  next
    case False
    have "has_next env (page v)" using Suc.prems(2) by simp
    with False have sd: "stop_decision env s v = None" using empty_page_step(1)[OF h] by simp
    let ?v1 = "next_vars env s v"
    have v1: "page ?v1 = page v + 1" "consecutive_empty ?v1 = consecutive_empty v + 1"
      using empty_page_step(2)[OF h sd] by simp_all
    from loop_unfold[of v s env] sd obtain s1 where
      sr: "step_rel v s ?v1 s1" and lp: "scrape_loop env v s = scrape_loop env ?v1 s1" by auto
    have cfg: "max_pages s1 = max_pages s" "test_mode s1 = test_mode s"
      using step_rel_config[OF sr] by simp_all
    have om: "over_max_pages s1 q = over_max_pages s q" for q
      using cfg by (simp add: over_max_pages_def)
    have a1: "\<forall>q. page ?v1 \<le> q \<and> q \<le> page ?v1 + n \<longrightarrow>
             empty_page env q \<and> \<not> over_max_pages s1 q \<and> \<not> (test_mode s1 \<and> q > 2)"
      using Suc.prems(1) v1 cfg om by auto
    have a2: "\<forall>q. page ?v1 \<le> q \<and> q < page ?v1 + n \<longrightarrow> has_next env q"
      using Suc.prems(2) v1 by auto
    have a3: "consecutive_empty ?v1 + n \<ge> 2" using Suc.prems(3) v1 by simp
    from Suc.IH[OF a1 a2 a3] obtain v' s' where
      "scrape_loop env ?v1 s1 = Some (EmptyPages, v', s')" "page v' \<le> page ?v1 + n" by blast
    with lp v1 show ?thesis by auto
  qed
qed

lemma next_vars_page:
  "stop_decision env s v = None \<Longrightarrow> page (next_vars env s v) = page v + 1"
  "stop_decision env s v \<noteq> None \<Longrightarrow> page (next_vars env s v) = page v"
  by (auto simp: stop_decision_def next_vars_def counted_def split: if_splits sum.splits option.splits)

lemma limited_run:
  assumes "max_pages s = Some m" "m \<noteq> 0"
  shows "\<exists>st v' s'. scrape_loop env v s = Some (st, v', s')
           \<and> int (page v') \<le> max (int (page v)) (m + 1)
           \<and> (int (page v') > m \<longrightarrow> st = MaxPagesReached)"
  using assms
proof (induction "nat (m + 1) - page v" arbitrary: v s rule: less_induct)
  case less
  from loop_unfold[of v s env] obtain s1 where
    sr: "step_rel v s (next_vars env s v) s1" and
    lp: "scrape_loop env v s =
       (case stop_decision env s v of
          Some st \<Rightarrow> Some (st, next_vars env s v, s1)
        | None \<Rightarrow> scrape_loop env (next_vars env s v) s1)" by blast
  show ?case
  proof (cases "over_max_pages s (page v)")
    case True
    then have "stop_decision env s v = Some MaxPagesReached" "next_vars env s v = v"
      by (simp_all add: stop_decision_def next_vars_def)
    with lp show ?thesis by auto
  next
    case False
    with less.prems have le: "int (page v) \<le> m" by (simp add: over_max_pages_def)
    show ?thesis
    proof (cases "stop_decision env s v")
      case (Some st)
      then have "page (next_vars env s v) = page v" using next_vars_page(2)[of env s v] by simp
      with lp Some le show ?thesis by auto
    next
      case None
      let ?v1 = "next_vars env s v"
      have pg: "page ?v1 = page v + 1" using next_vars_page(1)[OF None] .
      have cfg: "max_pages s1 = Some m" using step_rel_config(1)[OF sr] less.prems by simp
      have "nat (m + 1) - page ?v1 < nat (m + 1) - page v" using pg le by linarith
      from less.hyps[OF this cfg less.prems(2)] obtain st v' s' where
        r: "scrape_loop env ?v1 s1 = Some (st, v', s')"
        "int (page v') \<le> max (int (page ?v1)) (m + 1)"
        "int (page v') > m \<longrightarrow> st = MaxPagesReached" by blast
      have "int (page v') \<le> max (int (page v)) (m + 1)" using r(2) pg le by simp
      with lp None r show ?thesis by auto
    qed
  qed
qed

























section \<open>The pages a run requests\<close>

text \<open>
  Only \<open>session.get\<close> adds a request to the trace. One turn of the loop requests
  at most the URL of its own page, and none when it stops on the page limit or
  the test-mode cap; so a run with a page limit other than 0 requests no page
  beyond the limit.
\<close>

lemma requested_append: "requested (xs @ ys) = requested xs @ requested ys"
  by (induction xs rule: requested.induct) auto

lemma requested_log: "requested (trace (log l m s)) = requested (trace s)"
  by (simp add: log_def emit_def requested_append)

lemma requested_pick_proxy: "requested (trace (snd (pick_proxy s))) = requested (trace s)"
  by (auto simp: pick_proxy_def rotate_proxy_def log_def emit_def Let_def requested_append
      split: option.splits prod.splits)

lemma requested_attempt_once:
  "requested (trace (snd (attempt_once env url a s))) = requested (trace s) @ [url]"
proof -
  obtain px s1 where p: "pick_proxy s = (px, s1)" by (cases "pick_proxy s")
  then have "requested (trace s1) = requested (trace s)" using requested_pick_proxy[of s] by simp
  then show ?thesis using p by (simp add: attempt_once_def emit_def requested_append)
qed

lemma requested_request_attempts:
  "set (requested (trace (snd (request_attempts env url as s)))) \<subseteq> insert url (set (requested (trace s)))"
proof (induction as arbitrary: s)
  case Nil
  show ?case by auto
next
  case (Cons a as)
  obtain r s1 where at: "attempt_once env url a s = (r, s1)" by (cases "attempt_once env url a s")
  then have r1: "requested (trace s1) = requested (trace s) @ [url]"
    using requested_attempt_once[of env url a s] by simp
  show ?case
  proof (cases r)
    case (Inr resp)
    with at r1 show ?thesis by auto
  next
    case (Inl e)
    show ?thesis
    proof (cases "retry_catches e")
      case False
      with Inl at r1 show ?thesis by auto
    next
      case True
      let ?w = "2 ^ a + jitter env url a"
      let ?s2 = "emit (Sleep ?w) (log WARNING (AttemptFailed (a + 1) e ?w) s1)"
      have "requested (trace ?s2) = requested (trace s) @ [url]"
        using r1 by (simp add: emit_def log_def requested_append)
      with Cons.IH[of ?s2] have
        "set (requested (trace (snd (request_attempts env url as ?s2)))) \<subseteq> insert url (set (requested (trace s)))"
        by auto
      with Inl True at show ?thesis by simp
    qed
  qed
qed

lemma requested_parse_rows:
  "requested (trace (snd (parse_rows env clock i trs acc s))) = requested (trace s)"
  by (induction trs arbitrary: i acc s)
     (auto simp: requested_log split: sum.splits row_result.splits)

lemma requested_parse_page:
  "requested (trace (snd (parse_page env clock html s))) = requested (trace s)"
  by (auto simp: parse_page_def requested_log requested_parse_rows split: option.splits)

lemma requested_save_progress:
  "requested (trace (snd (save_progress f s))) = requested (trace s)"
  by (cases "scraped_data s = []")
     (auto simp: save_progress_def save_try_cases log_def emit_def requested_append
       split: csv_file.splits option.splits)

lemma requested_after_page:
  "requested (trace (snd (snd (after_page env r v s)))) = requested (trace s)"
proof -
  let ?sp = "if page v mod SAVE_INTERVAL = 0 then save_progress False s else (None, s)"
  have f: "fst ?sp = None" by (simp add: save_progress_no_raise)
  have t: "requested (trace (snd ?sp)) = requested (trace s)" by (simp add: requested_save_progress)
  obtain s0 where sp: "?sp = (None, s0)" using f by (cases ?sp) auto
  with t have "requested (trace s0) = requested (trace s)" by simp
  then show ?thesis using sp by (simp add: after_page_def requested_log)
qed

lemma requested_process_page:
  "requested (trace (snd (snd (process_page env r v s)))) = requested (trace s)"
proof -
  obtain pr s1 where pp: "parse_page env (now env (page v)) (resp_text r) s = (pr, s1)"
    by (cases "parse_page env (now env (page v)) (resp_text r) s")
  then have t: "requested (trace s1) = requested (trace s)"
    using requested_parse_page[of env "now env (page v)" "resp_text r" s] by simp
  have t2: "requested (trace (s1\<lparr>scraped_data := x\<rparr>)) = requested (trace s)" for x
    using t by simp
  show ?thesis
    using pp t t2
    by (auto simp: process_page_def requested_after_page requested_log split: sum.splits)
qed

lemma requested_iteration:
  "set (requested (trace (snd (snd (iteration env v s)))))
     \<subseteq> set (requested (trace s))
       \<union> (if over_max_pages s (page v) \<or> (test_mode s \<and> page v > 2) then {} else {page_url (page v)})"
proof (cases "over_max_pages s (page v) \<or> (test_mode s \<and> page v > 2)")
  case True
  then show ?thesis by (auto simp: iteration_def requested_log)
next
  case False
  then have g1: "over_max_pages s (page v) = False" and g2: "(test_mode s \<and> 2 < page v) = False"
    by simp_all
  let ?s0 = "emit (Sleep (delay env (page v))) s"
  obtain res s1 where rq: "request_with_retry env (page_url (page v)) ?s0 = (res, s1)"
    by (cases "request_with_retry env (page_url (page v)) ?s0")
  have "requested (trace ?s0) = requested (trace s)" by (simp add: emit_def requested_append)
  then have s1: "set (requested (trace s1)) \<subseteq> insert (page_url (page v)) (set (requested (trace s)))"
    using requested_request_attempts[of env "page_url (page v)" "[0..<RETRY_LIMIT]" ?s0] rq
    by (simp add: request_with_retry_def)
  have "set (requested (trace (snd (snd (iteration env v s))))) \<subseteq> set (requested (trace s1))"
    using rq
    by (auto simp: iteration_def g1 g2 requested_log requested_process_page
        split: sum.splits option.splits)
  with s1 False show ?thesis by auto
qed

lemma limited_requests:
  assumes run: "scrape_loop env v s = Some (st, v', s')" and mp: "max_pages s = Some m" "m \<noteq> 0"
  shows "\<forall>u \<in> set (requested (trace s')).
           u \<in> set (requested (trace s)) \<or> (\<exists>q. u = page_url q \<and> int q \<le> m)"
proof -
  let ?I = "\<lambda>(w::loop_vars) t. max_pages t = Some m \<and>
      (\<forall>u \<in> set (requested (trace t)).
           u \<in> set (requested (trace s)) \<or> (\<exists>q. u = page_url q \<and> int q \<le> m))"
  have "?I v' s'"
  proof (rule loop_invariant[where I = ?I, OF run])
    show "?I v s" using mp by simp
  next
    fix w t x w1 t1
    assume i: "?I w t" and it: "iteration env w t = (x, w1, t1)"
    from iteration_result[of env w t] it have sr: "step_rel w t w1 t1" by auto
    have cfg: "max_pages t1 = Some m" using step_rel_config(1)[OF sr] i by simp
    have sub: "set (requested (trace t1)) \<subseteq> set (requested (trace t))
       \<union> (if over_max_pages t (page w) \<or> (test_mode t \<and> page w > 2) then {} else {page_url (page w)})"
      using requested_iteration[of env w t] it by simp
    have "u \<in> set (requested (trace s)) \<or> (\<exists>q. u = page_url q \<and> int q \<le> m)"
      if u: "u \<in> set (requested (trace t1))" for u
    proof (cases "u \<in> set (requested (trace t))")
      case True
      with i show ?thesis by blast
    next
      case False
      with sub u have nm: "\<not> over_max_pages t (page w)" and "u = page_url (page w)"
        by (auto split: if_splits)
      moreover from nm i mp(2) have "int (page w) \<le> m" by (simp add: over_max_pages_def)
      ultimately show ?thesis by blast
    qed
    with cfg show "?I w1 t1" by blast
  qed
  then show ?thesis by simp
qed

section \<open>Sample runs\<close>

lemma two_pages_facts:
  "fetched (sample_env two_pages) 1 = Inr (Some \<lparr>status_code = 200, resp_text = full_next_html\<rparr>)"
  "parsed (sample_env two_pages) 1 \<lparr>status_code = 200, resp_text = full_next_html\<rparr>
     = Inr [sample_record\<lparr>details_url := BASE_URL @ ''details/7''\<rparr>]"
  "next_button (soup (sample_env two_pages) full_next_html)"
  "fetched (sample_env two_pages) 2 = Inr (Some \<lparr>status_code = 200, resp_text = full_last_html\<rparr>)"
  "parsed (sample_env two_pages) 2 \<lparr>status_code = 200, resp_text = full_last_html\<rparr>
     = Inr [sample_record\<lparr>details_url := BASE_URL @ ''details/7''\<rparr>]"
  "\<not> next_button (soup (sample_env two_pages) full_last_html)"
  by code_simp+

lemma two_pages_loop:
  assumes "\<not> over_max_pages s 2" and "\<not> test_mode s"
  shows "\<exists>s'. scrape_loop (sample_env two_pages) first_turn s
     = Some (NoNextPage, \<lparr>page = 2, total_records = 2, consecutive_empty = 0\<rparr>, s')"
proof -
  let ?E = "sample_env two_pages"
  let ?v1 = "\<lparr>page = 2, total_records = 1, consecutive_empty = 0\<rparr>"
  let ?v2 = "\<lparr>page = 2, total_records = 2, consecutive_empty = 0\<rparr>"
  have o1: "over_max_pages s 1 = False" using assms(1) over_max_mono[of s 1 2] by auto
  have o2: "over_max_pages s 2 = False" using assms(1) by simp
  have d1: "stop_decision ?E s first_turn = None" "next_vars ?E s first_turn = ?v1"
    using assms(2)
    by (simp_all add: stop_decision_def next_vars_def first_turn_def o1[unfolded One_nat_def]
        two_pages_facts[unfolded One_nat_def] counted_def)
  from loop_unfold[of first_turn s ?E] d1 obtain s1 where
    sr: "step_rel first_turn s ?v1 s1" and lp: "scrape_loop ?E first_turn s = scrape_loop ?E ?v1 s1"
    by auto
  have cfg: "max_pages s1 = max_pages s" "test_mode s1 = test_mode s"
    using step_rel_config[OF sr] by simp_all
  have d2: "stop_decision ?E s ?v1 = Some NoNextPage" "next_vars ?E s ?v1 = ?v2"
    using assms(2)
    by (simp_all add: stop_decision_def next_vars_def o2 two_pages_facts counted_def)
  then have d2': "stop_decision ?E s1 ?v1 = Some NoNextPage" "next_vars ?E s1 ?v1 = ?v2"
    using decision_config[OF cfg] by simp_all
  from loop_unfold[of ?v1 s1 ?E] d2' lp show ?thesis by auto
qed



lemma empty_site_facts:
  "empty_page (sample_env (always empty_next_html)) 1"
  "empty_page (sample_env (always empty_next_html)) 2"
  "empty_page (sample_env (always empty_next_html)) 3"
  "has_next (sample_env (always empty_next_html)) 1"
  "has_next (sample_env (always empty_next_html)) 2"
  "has_next (sample_env (always empty_next_html)) 3"
  by code_simp+

lemma flaky_facts:
  "list_all (attempt_fails (sample_env flaky) BASE_URL) [0..<3]"
  "attempt_outcome (sample_env flaky) BASE_URL 3 = Inr \<lparr>status_code = 200, resp_text = full_last_html\<rparr>"
  "list_all (attempt_fails (sample_env down) BASE_URL) [0..<RETRY_LIMIT]"
  by code_simp+

lemma sample_sleeps:
  "map (\<lambda>i. 2 ^ i + jitter (sample_env flaky) BASE_URL i) [0..<3] = [3 / 2, 5 / 2, 9 / 2]"
  "map (\<lambda>i. 2 ^ i + jitter (sample_env down) BASE_URL i) [0..<RETRY_LIMIT]
     = [3 / 2, 5 / 2, 9 / 2, 17 / 2, 33 / 2]"
  by (simp_all add: sample_env_def RETRY_LIMIT_def upt_rec)

text \<open>On a site where every page has records and a next page, a run without limit never ends.\<close>

lemma always_full_facts:
  "attempt_outcome (sample_env (always full_next_html)) url 0
     = Inr \<lparr>status_code = 200, resp_text = full_next_html\<rparr>"
proof -
  have "check_response \<lparr>status_code = 200, resp_text = full_next_html\<rparr>
      = Inr \<lparr>status_code = 200, resp_text = full_next_html\<rparr>" by code_simp
  then show ?thesis by (simp add: attempt_outcome_def sample_env_def always_def ok_page_def)
qed

lemma always_full_fetched:
  "fetched (sample_env (always full_next_html)) p = Inr (Some \<lparr>status_code = 200, resp_text = full_next_html\<rparr>)"
  by (simp add: fetched_def RETRY_LIMIT_def upt_rec[of 0] always_full_facts)

lemma always_full_parsed:
  "parsed (sample_env (always full_next_html)) p \<lparr>status_code = 200, resp_text = full_next_html\<rparr>
     = Inr [sample_record\<lparr>details_url := BASE_URL @ ''details/7''\<rparr>]"
proof -
  have "fst (parse_page (sample_env (always full_next_html)) (\<lambda>row. ''2024-01-01T00:00:00'')
          full_next_html new_scraper)
     = Inr [sample_record\<lparr>details_url := BASE_URL @ ''details/7''\<rparr>]" by code_simp
  moreover have "now (sample_env (always full_next_html)) p = (\<lambda>row. ''2024-01-01T00:00:00'')"
    by (simp add: sample_env_def)
  ultimately show ?thesis by (simp add: parsed_def)
qed

lemma endless_site_never_returns:
  "scrape_loop (sample_env (always full_next_html)) first_turn new_scraper = None"
proof -
  let ?E = "sample_env (always full_next_html)"
  have nb: "next_button (soup ?E full_next_html)" by code_simp
  have dec: "stop_decision ?E t w = None" if "max_pages t = None" "\<not> test_mode t" for t w
    using that nb
    by (simp add: stop_decision_def over_max_pages_def always_full_fetched always_full_parsed)
  have no: "e = ?E \<longrightarrow> max_pages t = None \<and> \<not> test_mode t \<longrightarrow> False"
    if run: "scrape_loop e w t = Some y" for e w t y
  proof (rule scrape_loop.raw_induct
      [where P = "\<lambda>e w t y. e = ?E \<longrightarrow> max_pages t = None \<and> \<not> test_mode t \<longrightarrow> False", OF _ run])
    fix loop e w t y
    assume IH: "\<And>e w t y. loop e w t = Some y \<Longrightarrow>
        e = ?E \<longrightarrow> max_pages t = None \<and> \<not> test_mode t \<longrightarrow> False"
      and body: "(case iteration e w t of (None, v1, s1) \<Rightarrow> loop e v1 s1
                  | (Some st, v1, s1) \<Rightarrow> Some (st, v1, s1)) = Some y"
    show "e = ?E \<longrightarrow> max_pages t = None \<and> \<not> test_mode t \<longrightarrow> False"
    proof (intro impI)
      assume e: "e = ?E" and c: "max_pages t = None \<and> \<not> test_mode t"
      from iteration_result[of ?E w t] obtain s1 where
        it: "iteration ?E w t = (stop_decision ?E t w, next_vars ?E t w, s1)"
        and sr: "step_rel w t (next_vars ?E t w) s1" by blast
      have d: "stop_decision ?E t w = None" using dec c by simp
      have cfg: "max_pages s1 = None \<and> \<not> test_mode s1" using step_rel_config[OF sr] c by simp
      from body it d e have "loop ?E (next_vars ?E t w) s1 = Some y" by simp
      from IH[OF this] cfg show False by simp
    qed
  qed
  have "scrape_loop ?E first_turn new_scraper \<noteq> Some y" for y
    using no[of ?E first_turn new_scraper y] by (auto simp: new_scraper_def)
  then show ?thesis by (cases "scrape_loop ?E first_turn new_scraper") auto
qed

section \<open>Searching\<close>














lemma writes_append: "writes (xs @ ys) = writes xs @ writes ys"
  by (induction xs rule: writes.induct) auto

lemma output_results_effect:
  "exports (snd (output_results kw fmt res s)) = exports s \<and>
     writes (trace (snd (output_results kw fmt res s))) = writes (trace s) \<or>
   fst (output_results kw fmt res s) \<noteq> None \<and> exports (snd (output_results kw fmt res s)) = exports s \<or>
   (fmt = ''csv'' \<or> fmt = ''json'') \<and> fst (output_results kw fmt res s) = None \<and>
     exports (snd (output_results kw fmt res s)) = (exports s)(export_name kw fmt := Some (fmt, res))"
  by (auto simp: output_results_def write_export_def emit_def log_def writes_append
      split: option.splits)

lemma output_results_dataset: "dataset (snd (output_results kw fmt res s)) = dataset s"
  by (auto simp: output_results_def write_export_def emit_def log_def split: option.splits)

lemma search_try_no_rows:
  assumes "selected env kw s = []"
  shows "exports (snd (search_try env kw fmt s)) = exports s"
    and "writes (trace (snd (search_try env kw fmt s))) = writes (trace s)"
    and "\<forall>found. fst (search_try env kw fmt s) = Inr found \<longrightarrow> found = []"
  using assms
  by (auto simp: search_try_def read_csv_def selected_def emit_def log_def writes_append
      split: csv_file.splits sum.splits prod.splits if_splits)

lemma selected_log: "selected env kw (log l m s) = selected env kw s"
  by (simp add: selected_def log_def emit_def)

lemma search_no_match:
  assumes "selected env kw s = []"
  shows "fst (search_database env kw fmt s) = Inr []"
    and "exports (snd (search_database env kw fmt s)) = exports s"
    and "writes (trace (snd (search_database env kw fmt s))) = writes (trace s)"
proof -
  let ?s0 = "log INFO (Searching kw) s"
  have sel: "selected env kw ?s0 = []" using assms by (simp add: selected_log)
  have base: "exports ?s0 = exports s" "writes (trace ?s0) = writes (trace s)"
    by (simp_all add: log_def emit_def writes_append)
  obtain r s1 where st: "search_try env kw fmt ?s0 = (r, s1)" by (cases "search_try env kw fmt ?s0")
  have e: "exports s1 = exports s" "writes (trace s1) = writes (trace s)"
    using search_try_no_rows(1,2)[OF sel, of fmt] st base by simp_all
  have f: "r = Inr found \<Longrightarrow> found = []" for found
    using search_try_no_rows(3)[OF sel, of fmt] st by simp
  have ki: "r \<noteq> Inl KeyboardInterrupt"
    using st by (auto simp: search_try_def read_csv_def split: csv_file.splits sum.splits prod.splits if_splits option.splits)
  show "fst (search_database env kw fmt s) = Inr []"
    using st f ki by (auto simp: search_database_def split: sum.splits py_exn.splits)
  show "exports (snd (search_database env kw fmt s)) = exports s"
    using st e base by (auto simp: search_database_def log_def emit_def split: sum.splits py_exn.splits)
  show "writes (trace (snd (search_database env kw fmt s))) = writes (trace s)"
    using st e base by (auto simp: search_database_def log_def emit_def writes_append split: sum.splits py_exn.splits)
qed

lemma search_try_exports:
  "exports (snd (search_try env kw fmt s)) = exports s \<or>
   (selected env kw s \<noteq> [] \<and> (fmt = ''csv'' \<or> fmt = ''json'') \<and>
     (\<exists>df. dataset s = Csv df \<and>
        exports (snd (search_try env kw fmt s))
          = (exports s)(export_name kw fmt := Some (fmt, df\<lparr>rows := selected env kw s\<rparr>))))"
proof (cases "selected env kw s = []")
  case True
  then show ?thesis using search_try_no_rows(1) by blast
next
  case False
  then obtain df rs where d: "dataset s = Csv df" "select_rows env kw (rows df) = Inr rs" "rs \<noteq> []"
    "selected env kw s = rs"
    by (auto simp: selected_def split: csv_file.splits sum.splits)
  let ?s1 = "emit (FileRead (output_file s)) s"
  let ?o = "output_results kw fmt (df\<lparr>rows := rs\<rparr>) ?s1"
  have st: "exports (snd (search_try env kw fmt s)) = exports (snd ?o)"
    using d by (auto simp: search_try_def read_csv_def log_def emit_def split: prod.splits option.splits)
  have b: "exports ?s1 = exports s" by (simp add: emit_def)
  from output_results_effect[of kw fmt "df\<lparr>rows := rs\<rparr>" ?s1] st b d False show ?thesis by auto
qed

lemma search_exports:
  "exports (snd (search_database env kw fmt s)) = exports s \<or>
   (selected env kw s \<noteq> [] \<and> (fmt = ''csv'' \<or> fmt = ''json'') \<and>
     (\<exists>df. dataset s = Csv df \<and>
        exports (snd (search_database env kw fmt s))
          = (exports s)(export_name kw fmt := Some (fmt, df\<lparr>rows := selected env kw s\<rparr>))))"
proof -
  let ?s0 = "log INFO (Searching kw) s"
  have base: "exports ?s0 = exports s" "dataset ?s0 = dataset s"
    by (simp_all add: log_def emit_def)
  have e: "exports (snd (search_database env kw fmt s)) = exports s \<or>
      exports (snd (search_database env kw fmt s)) = exports (snd (search_try env kw fmt ?s0))"
    by (auto simp: search_database_def log_def emit_def split: prod.splits sum.splits py_exn.splits)
  from search_try_exports[of env kw fmt ?s0] e base show ?thesis
    by (auto simp: selected_log)
qed



section \<open>The claims about parsing and the stored addresses\<close>



text \<open>
  Claim C8 fails on the code: a data row whose fifth cell holds an \<open>a\<close> element
  without an \<open>href\<close> attribute makes \<open>details_link['href']\<close> raise \<open>KeyError\<close>, and
  \<open>_parse_page\<close> has no handler, so the exception leaves it. The page below has a
  table, a header row and one such row, with a valid address. (By
  \<open>parse_page_raises_only_on_links\<close> the link of a fifth cell is the only way for
  the parser to raise.)
\<close>

theorem parse_page_raises_on_link_without_href:
  "table_rows (soup (sample_env two_pages) no_href_html) = Some [header_row, no_href_row]
   \<and> cell_link (no_href_row ! 4) = Anchor None
   \<and> fst (parse_page (sample_env two_pages) (\<lambda>row. ''2024-01-01T00:00:00'') no_href_html new_scraper)
       = Inl KeyError"
  by code_simp

section \<open>The claims about the controller and the fetcher\<close>

lemma first_success_all_fail:
  "list_all (attempt_fails env url) as \<Longrightarrow> first_success env url as = Inr None"
  using request_attempts_all_fail[of env url as new_scraper] request_attempts_fst[of env url as new_scraper]
  by simp

lemma three_pages:
  fixes p q :: nat
  assumes "p \<le> q" "q \<le> p + 2"
  shows "q = p \<or> q = p + 1 \<or> q = p + 2"
  using assms by linarith

text \<open>
  Claim C5, as amended. The reason for which one turn of the loop stops is given by
  the conditions in the order: page-count limit, test-mode cap, fetch failure,
  three consecutive empty pages, no next page. Outside test mode and within the
  page limit, three consecutive empty pages stop the run with that reason at the
  third of them at the latest, although each has a next-page indicator. With a
  page-count limit \<open>m\<close> other than 0 every run ends, its page counter never passes
  \<open>m + 1\<close>, once the counter is above \<open>m\<close> the reason is the limit, and no page
  beyond \<open>m\<close> is requested during the run.
\<close>

theorem stop_conditions_in_order:
  "fst (iteration env v s) = stop_decision env s v
   \<and> (\<not> over_max_pages sa (page va + 2) \<and> \<not> test_mode sa
        \<and> empty_page enva (page va) \<and> empty_page enva (page va + 1)
        \<and> empty_page enva (page va + 2)
        \<and> has_next enva (page va) \<and> has_next enva (page va + 1)
      \<longrightarrow> (\<exists>v' s'. scrape_loop enva va sa = Some (EmptyPages, v', s') \<and> page v' \<le> page va + 2))
   \<and> (max_pages sb = Some m \<and> m \<noteq> 0
      \<longrightarrow> (\<exists>st v' s'. scrape_loop envb vb sb = Some (st, v', s')
             \<and> int (page v') \<le> max (int (page vb)) (m + 1)
             \<and> (int (page v') > m \<longrightarrow> st = MaxPagesReached)
             \<and> (\<forall>u \<in> set (requested (trace s')).
                   u \<in> set (requested (trace sb)) \<or> (\<exists>q. u = page_url q \<and> int q \<le> m))))"
proof (intro conjI impI)
  show "fst (iteration env v s) = stop_decision env s v"
    using iteration_result[of env v s] by auto
next
  assume a: "\<not> over_max_pages sa (page va + 2) \<and> \<not> test_mode sa
        \<and> empty_page enva (page va) \<and> empty_page enva (page va + 1)
        \<and> empty_page enva (page va + 2)
        \<and> has_next enva (page va) \<and> has_next enva (page va + 1)"
  have h1: "\<forall>q. page va \<le> q \<and> q \<le> page va + 2 \<longrightarrow>
             empty_page enva q \<and> \<not> over_max_pages sa q \<and> \<not> (test_mode sa \<and> q > 2)"
  proof (intro allI impI)
    fix q assume q: "page va \<le> q \<and> q \<le> page va + 2"
    then have "q = page va \<or> q = page va + 1 \<or> q = page va + 2" using three_pages by blast
    then have "empty_page enva q" using a by auto
    moreover have "\<not> over_max_pages sa q" using a q over_max_mono[of sa q "page va + 2"] by blast
    ultimately show "empty_page enva q \<and> \<not> over_max_pages sa q \<and> \<not> (test_mode sa \<and> q > 2)"
      using a by simp
  qed
  have h2: "\<forall>q. page va \<le> q \<and> q < page va + 2 \<longrightarrow> has_next enva q"
  proof (intro allI impI)
    fix q assume "page va \<le> q \<and> q < page va + 2"
    then have "q = page va \<or> q = page va + 1" by linarith
    then show "has_next enva q" using a by auto
  qed
  have h3: "consecutive_empty va + 2 \<ge> 2" by simp
  show "\<exists>v' s'. scrape_loop enva va sa = Some (EmptyPages, v', s') \<and> page v' \<le> page va + 2"
    using empty_run[OF h1 h2 h3] .
next
  assume a: "max_pages sb = Some m \<and> m \<noteq> 0"
  then obtain st v' s' where run: "scrape_loop envb vb sb = Some (st, v', s')"
    and b: "int (page v') \<le> max (int (page vb)) (m + 1)" "int (page v') > m \<longrightarrow> st = MaxPagesReached"
    using limited_run[of sb m envb vb] by blast
  from a have "max_pages sb = Some m" "m \<noteq> 0" by simp_all
  from limited_requests[OF run this] run b
  show "\<exists>st v' s'. scrape_loop envb vb sb = Some (st, v', s')
             \<and> int (page v') \<le> max (int (page vb)) (m + 1)
             \<and> (int (page v') > m \<longrightarrow> st = MaxPagesReached)
             \<and> (\<forall>u \<in> set (requested (trace s')).
                   u \<in> set (requested (trace sb)) \<or> (\<exists>q. u = page_url q \<and> int q \<le> m))"
    by blast
qed

theorem stop_conditions_in_order_witness:
  "fst (iteration (sample_env two_pages) first_turn new_scraper)
     = stop_decision (sample_env two_pages) new_scraper first_turn
   \<and> stop_decision (sample_env two_pages) new_scraper first_turn = None
   \<and> \<not> over_max_pages new_scraper (page first_turn + 2) \<and> \<not> test_mode new_scraper
   \<and> empty_page (sample_env (always empty_next_html)) (page first_turn)
   \<and> empty_page (sample_env (always empty_next_html)) (page first_turn + 1)
   \<and> empty_page (sample_env (always empty_next_html)) (page first_turn + 2)
   \<and> has_next (sample_env (always empty_next_html)) (page first_turn)
   \<and> has_next (sample_env (always empty_next_html)) (page first_turn + 1)
   \<and> (\<exists>v' s'. scrape_loop (sample_env (always empty_next_html)) first_turn new_scraper
                  = Some (EmptyPages, v', s') \<and> page v' \<le> 3)
   \<and> max_pages (new_scraper\<lparr>max_pages := Some 1\<rparr>) = Some 1
   \<and> (\<exists>st v' s'. scrape_loop (sample_env (always full_next_html)) first_turn
                     (new_scraper\<lparr>max_pages := Some 1\<rparr>) = Some (st, v', s')
          \<and> int (page v') \<le> 2 \<and> (int (page v') > 1 \<longrightarrow> st = MaxPagesReached)
          \<and> (\<forall>u \<in> set (requested (trace s')).
                u \<in> set (requested (trace (new_scraper\<lparr>max_pages := Some 1\<rparr>)))
                \<or> (\<exists>q. u = page_url q \<and> int q \<le> 1)))"
proof -
  let ?EE = "sample_env (always empty_next_html)"
  have d: "stop_decision (sample_env two_pages) new_scraper first_turn = None"
    by code_simp
  have pg: "page first_turn = 1" by (simp add: first_turn_def)
  have c1: "\<not> over_max_pages new_scraper (page first_turn + 2)" "\<not> test_mode new_scraper"
    by (simp_all add: over_max_pages_def new_scraper_def)
  have c2: "empty_page ?EE (page first_turn)" "empty_page ?EE (page first_turn + 1)"
    "empty_page ?EE (page first_turn + 2)" "has_next ?EE (page first_turn)"
    "has_next ?EE (page first_turn + 1)"
    using empty_site_facts by (simp_all add: pg numeral_2_eq_2 numeral_3_eq_3)
  have c3: "max_pages (new_scraper\<lparr>max_pages := Some 1\<rparr>) = Some 1" by simp
  note T = stop_conditions_in_order[of "sample_env two_pages" first_turn new_scraper
      new_scraper first_turn ?EE "new_scraper\<lparr>max_pages := Some 1\<rparr>" 1
      "sample_env (always full_next_html)" first_turn]
  from T d c1 c2 c3 pg show ?thesis by auto
qed

text \<open>
  The claim as it stands fails for the limit 0, which \<open>self.max_pages and ...\<close>
  reads as no limit: on a site of two pages the run with \<open>max_pages = 0\<close> fetches
  both, counts two records and stops for want of a next page.
\<close>

theorem zero_page_limit_is_no_limit:
  "max_pages (new_scraper\<lparr>max_pages := Some 0\<rparr>) = Some 0
   \<and> map_option fst (scrape_loop (sample_env two_pages) first_turn
        (new_scraper\<lparr>max_pages := Some 0\<rparr>)) = Some NoNextPage
   \<and> map_option (page \<circ> fst \<circ> snd) (scrape_loop (sample_env two_pages) first_turn
        (new_scraper\<lparr>max_pages := Some 0\<rparr>)) = Some 2
   \<and> map_option (total_records \<circ> fst \<circ> snd) (scrape_loop (sample_env two_pages) first_turn
        (new_scraper\<lparr>max_pages := Some 0\<rparr>)) = Some 2"
proof -
  have "\<not> over_max_pages (new_scraper\<lparr>max_pages := Some 0\<rparr>) 2"
    "\<not> test_mode (new_scraper\<lparr>max_pages := Some 0\<rparr>)"
    by (simp_all add: over_max_pages_def new_scraper_def)
  from two_pages_loop[OF this] show ?thesis by auto
qed

text \<open>
  Claim C6. An attempt fails when \<open>session.get\<close> raises a connection error, a
  timeout or a proxy error, when the body is detected as blocked, or when it
  lacks the table marker. If attempts \<open>0\<close> to \<open>k - 1\<close> fail and attempt \<open>k\<close>, within
  the ceiling of 5, succeeds, the response of attempt \<open>k\<close> is returned after sleeps
  of \<open>2 ^ i + jitter\<close> for each failed attempt \<open>i\<close>; if all 5 attempts fail the
  result is \<open>None\<close>, after 5 such sleeps, and the controller then stops the run
  with the reason that the page could not be retrieved. The jitter is the number
  \<open>random.random()\<close> returns, which lies in \<open>[0, 1)\<close>.
\<close>

theorem retry_with_backoff:
  "(net env url i = Raises (Exc ConnectionError) \<or> net env url i = Raises (Exc Timeout)
      \<or> net env url i = Raises (Exc ProxyError)
      \<or> net env url i = Responds r0 \<and> (is_blocked (resp_text r0) \<or> \<not> has_table_marker (resp_text r0))
     \<longrightarrow> attempt_fails env url i)
   \<and> (k < RETRY_LIMIT \<and> list_all (attempt_fails enva urla) [0..<k]
        \<and> attempt_outcome enva urla k = Inr r
      \<longrightarrow> fst (request_with_retry enva urla sa) = Inr (Some r)
          \<and> sleeps (trace (snd (request_with_retry enva urla sa)))
              = sleeps (trace sa) @ map (\<lambda>i. 2 ^ i + jitter enva urla i) [0..<k])
   \<and> (list_all (attempt_fails envb urlb) [0..<RETRY_LIMIT]
      \<longrightarrow> fst (request_with_retry envb urlb sb) = Inr None
          \<and> sleeps (trace (snd (request_with_retry envb urlb sb)))
              = sleeps (trace sb) @ map (\<lambda>i. 2 ^ i + jitter envb urlb i) [0..<RETRY_LIMIT])
   \<and> (list_all (attempt_fails envc (page_url (page vc))) [0..<RETRY_LIMIT]
        \<and> \<not> over_max_pages sc (page vc) \<and> \<not> (test_mode sc \<and> page vc > 2)
      \<longrightarrow> (\<exists>s'. scrape_loop envc vc sc = Some (FetchFailed, vc, s')))"
proof (intro conjI impI)
  assume "net env url i = Raises (Exc ConnectionError) \<or> net env url i = Raises (Exc Timeout)
      \<or> net env url i = Raises (Exc ProxyError)
      \<or> net env url i = Responds r0 \<and> (is_blocked (resp_text r0) \<or> \<not> has_table_marker (resp_text r0))"
  then show "attempt_fails env url i"
    by (auto simp: attempt_fails_def attempt_outcome_def check_response_def)
next
  assume a: "k < RETRY_LIMIT \<and> list_all (attempt_fails enva urla) [0..<k]
        \<and> attempt_outcome enva urla k = Inr r"
  then have sp: "[0..<RETRY_LIMIT] = [0..<k] @ k # [Suc k..<RETRY_LIMIT]" using upt_split by blast
  from a have pre: "list_all (attempt_fails enva urla) [0..<k]"
    and ok: "attempt_outcome enva urla k = Inr r" by simp_all
  from request_attempts_success[OF pre ok, of "[Suc k..<RETRY_LIMIT]" sa]
  show "fst (request_with_retry enva urla sa) = Inr (Some r)"
    and "sleeps (trace (snd (request_with_retry enva urla sa)))
              = sleeps (trace sa) @ map (\<lambda>i. 2 ^ i + jitter enva urla i) [0..<k]"
    unfolding request_with_retry_def sp[symmetric] by simp_all
next
  assume a: "list_all (attempt_fails envb urlb) [0..<RETRY_LIMIT]"
  from request_attempts_all_fail[OF a, of sb]
  show "fst (request_with_retry envb urlb sb) = Inr None"
    and "sleeps (trace (snd (request_with_retry envb urlb sb)))
              = sleeps (trace sb) @ map (\<lambda>i. 2 ^ i + jitter envb urlb i) [0..<RETRY_LIMIT]"
    unfolding request_with_retry_def by simp_all
next
  assume a: "list_all (attempt_fails envc (page_url (page vc))) [0..<RETRY_LIMIT]
        \<and> \<not> over_max_pages sc (page vc) \<and> \<not> (test_mode sc \<and> page vc > 2)"
  then have f: "fetched envc (page vc) = Inr None"
    by (simp add: fetched_def first_success_all_fail)
  have g1: "over_max_pages sc (page vc) = False" using a by simp
  have g2: "(test_mode sc \<and> 2 < page vc) = False" using a by simp
  have "stop_decision envc sc vc = Some FetchFailed" "next_vars envc sc vc = vc"
    using f by (simp_all add: stop_decision_def next_vars_def g1 g2)
  with loop_unfold[of vc sc envc] show "\<exists>s'. scrape_loop envc vc sc = Some (FetchFailed, vc, s')"
    by auto
qed

theorem retry_with_backoff_witness:
  "net (sample_env flaky) BASE_URL 0 = Raises (Exc Timeout)
   \<and> attempt_fails (sample_env flaky) BASE_URL 0
   \<and> (3::nat) < RETRY_LIMIT \<and> list_all (attempt_fails (sample_env flaky) BASE_URL) [0..<3]
   \<and> attempt_outcome (sample_env flaky) BASE_URL 3
       = Inr \<lparr>status_code = 200, resp_text = full_last_html\<rparr>
   \<and> fst (request_with_retry (sample_env flaky) BASE_URL new_scraper)
       = Inr (Some \<lparr>status_code = 200, resp_text = full_last_html\<rparr>)
   \<and> sleeps (trace (snd (request_with_retry (sample_env flaky) BASE_URL new_scraper)))
       = [3 / 2, 5 / 2, 9 / 2]
   \<and> list_all (attempt_fails (sample_env down) BASE_URL) [0..<RETRY_LIMIT]
   \<and> fst (request_with_retry (sample_env down) BASE_URL new_scraper) = Inr None
   \<and> sleeps (trace (snd (request_with_retry (sample_env down) BASE_URL new_scraper)))
       = [3 / 2, 5 / 2, 9 / 2, 17 / 2, 33 / 2]
   \<and> (\<exists>s'. scrape_loop (sample_env down) first_turn new_scraper = Some (FetchFailed, first_turn, s'))"
proof -
  have n: "net (sample_env flaky) BASE_URL 0 = Raises (Exc Timeout)"
    by (simp add: sample_env_def flaky_def)
  have k: "(3::nat) < RETRY_LIMIT" by (simp add: RETRY_LIMIT_def)
  have u: "page_url (page first_turn) = BASE_URL" by (simp add: page_url_def first_turn_def)
  have c: "\<not> over_max_pages new_scraper (page first_turn)"
    "\<not> (test_mode new_scraper \<and> page first_turn > 2)"
    by (simp_all add: over_max_pages_def new_scraper_def)
  have t: "sleeps (trace new_scraper) = []" by (simp add: new_scraper_def)
  note T = retry_with_backoff[of "sample_env flaky" BASE_URL 0 undefined 3 "sample_env flaky" BASE_URL
      "\<lparr>status_code = 200, resp_text = full_last_html\<rparr>" new_scraper
      "sample_env down" BASE_URL new_scraper "sample_env down" first_turn new_scraper]
  from T n k u c t flaky_facts sample_sleeps show ?thesis by auto
qed



section \<open>The claims about searching\<close>




text \<open>
  Claim C10. When the search selects no row (also when the file cannot be read or
  the matching fails) it returns the empty list, the exported files are as they
  were, and nothing is written. Whenever the exported files differ after a
  search, some row was selected, the format is CSV or JSON, and the only
  difference is the file named after the keyword, which holds the selected rows.
\<close>

theorem no_match_no_export:
  "(selected env keyword s = []
     \<longrightarrow> fst (search_database env keyword output_format s) = Inr []
        \<and> exports (snd (search_database env keyword output_format s)) = exports s
        \<and> writes (trace (snd (search_database env keyword output_format s))) = writes (trace s))
   \<and> (exports (snd (search_database enva keyworda formata sa)) \<noteq> exports sa
     \<longrightarrow> selected enva keyworda sa \<noteq> [] \<and> (formata = ''csv'' \<or> formata = ''json'')
        \<and> (\<exists>df. dataset sa = Csv df
              \<and> exports (snd (search_database enva keyworda formata sa))
                  = (exports sa)(export_name keyworda formata
                       := Some (formata, df\<lparr>rows := selected enva keyworda sa\<rparr>))))"
proof (intro conjI impI)
  assume a: "selected env keyword s = []"
  show "fst (search_database env keyword output_format s) = Inr []"
    using search_no_match(1)[OF a] .
  show "exports (snd (search_database env keyword output_format s)) = exports s"
    using search_no_match(2)[OF a] .
  show "writes (trace (snd (search_database env keyword output_format s))) = writes (trace s)"
    using search_no_match(3)[OF a] .
next
  assume a: "exports (snd (search_database enva keyworda formata sa)) \<noteq> exports sa"
  from search_exports[of enva keyworda formata sa] a
  have r: "selected enva keyworda sa \<noteq> [] \<and> (formata = ''csv'' \<or> formata = ''json'') \<and>
     (\<exists>df. dataset sa = Csv df \<and>
        exports (snd (search_database enva keyworda formata sa))
          = (exports sa)(export_name keyworda formata
               := Some (formata, df\<lparr>rows := selected enva keyworda sa\<rparr>)))"
    by blast
  from r show "selected enva keyworda sa \<noteq> []" by blast
  from r show "formata = ''csv'' \<or> formata = ''json''" by blast
  from r show "\<exists>df. dataset sa = Csv df
              \<and> exports (snd (search_database enva keyworda formata sa))
                  = (exports sa)(export_name keyworda formata
                       := Some (formata, df\<lparr>rows := selected enva keyworda sa\<rparr>))" by blast
qed

theorem no_match_no_export_witness:
  "selected (sample_env two_pages) ''satoshi'' stored_scraper = []
   \<and> fst (search_database (sample_env two_pages) ''satoshi'' ''csv'' stored_scraper) = Inr []
   \<and> exports (snd (search_database (sample_env two_pages) ''satoshi'' ''csv'' stored_scraper))
       = exports stored_scraper
   \<and> writes (trace (snd (search_database (sample_env two_pages) ''satoshi'' ''csv'' stored_scraper)))
       = []
   \<and> exports (snd (search_database (sample_env two_pages) ''btc'' ''csv'' stored_scraper))
       \<noteq> exports stored_scraper
   \<and> selected (sample_env two_pages) ''btc'' stored_scraper \<noteq> []
   \<and> exports (snd (search_database (sample_env two_pages) ''btc'' ''csv'' stored_scraper))
        ''search_results_btc.csv'' = Some (''csv'', old_frame)"
proof -
  let ?E = "sample_env two_pages"
  have h1: "selected ?E ''satoshi'' stored_scraper = []" by code_simp
  have h2: "writes (trace stored_scraper) = []" by (simp add: stored_scraper_def new_scraper_def)
  have h3: "exports (snd (search_database ?E ''btc'' ''csv'' stored_scraper))
        ''search_results_btc.csv'' = Some (''csv'', old_frame)" by code_simp
  have h4: "exports stored_scraper ''search_results_btc.csv'' = None"
    by (simp add: stored_scraper_def new_scraper_def)
  have h5: "exports (snd (search_database ?E ''btc'' ''csv'' stored_scraper)) \<noteq> exports stored_scraper"
    using h3 h4 by (metis option.distinct(1))
  note T = no_match_no_export[of ?E "''satoshi''" stored_scraper "''csv''" ?E "''btc''" "''csv''"
      stored_scraper]
  from T h1 h2 h3 h5 show ?thesis by simp
qed

end
